theory Spec2Isabelle
  imports Main
begin

section \<open>JavaScript strings\<close>

text \<open>
  Strings are lists of 8-bit code units (the Latin-1 range of the UTF-16 code units the
  scripts handle). \<open>toLowerCase\<close> maps the upper-case letters of that range to their
  lower-case partners, \<open>trim\<close> removes the white space and line terminators of that range
  from both ends, \<open>str_includes\<close> is the substring test of \<open>String.prototype.includes\<close>.
\<close>

definition toLowerCase_char :: "char \<Rightarrow> char" where
  "toLowerCase_char c =
     (let n = (of_char c :: nat)
      in if (65 \<le> n \<and> n \<le> 90) \<or> (192 \<le> n \<and> n \<le> 214) \<or> (216 \<le> n \<and> n \<le> 222)
         then char_of (n + 32) else c)"

definition toLowerCase :: "string \<Rightarrow> string" where
  "toLowerCase s = map toLowerCase_char s"

definition is_white_space :: "char \<Rightarrow> bool" where
  "is_white_space c = ((of_char c :: nat) \<in> {9, 10, 11, 12, 13, 32, 160})"

definition trim :: "string \<Rightarrow> string" where
  "trim s = rev (dropWhile is_white_space (rev (dropWhile is_white_space s)))"

definition starts_with :: "string \<Rightarrow> string \<Rightarrow> bool" where
  "starts_with s k = (take (length k) s = k)"

fun str_includes :: "string \<Rightarrow> string \<Rightarrow> bool" where
  "str_includes [] k = (k = [])"
| "str_includes (c # cs) k = (starts_with (c # cs) k \<or> str_includes cs k)"

text \<open>\<open>s.split("\n")\<close>: the pieces between line feeds; the empty string gives one empty piece.\<close>

fun split_lines :: "string \<Rightarrow> string list" where
  "split_lines [] = [[]]"
| "split_lines (c # cs) =
     (if c = CHR 0x0A then [] # split_lines cs
      else (case split_lines cs of [] \<Rightarrow> [[c]] | l # ls \<Rightarrow> (c # l) # ls))"

text \<open>
  A JavaScript \<open>Set\<close> of strings keeps its members in insertion order and ignores the
  insertion of a member it already has.
\<close>

definition set_add :: "string list \<Rightarrow> string \<Rightarrow> string list" where
  "set_add xs x = (if x \<in> set xs then xs else xs @ [x])"

definition set_has :: "string list \<Rightarrow> string \<Rightarrow> bool" where
  "set_has xs x = (x \<in> set xs)"

section \<open>The content script: page, engine state\<close>

datatype tag = ShredditPost | ShredditComment

text \<open>
  One element of the page: its tag, its computed \<open>display\<close> style and the four attributes
  the script reads with \<open>getAttribute\<close>, which returns \<open>null\<close> (here \<open>None\<close>) for an
  attribute the element does not carry.
\<close>

record element =
  tag :: tag
  display :: string
  attr_subreddit_prefixed_name :: "string option"
  attr_post_title :: "string option"
  attr_author :: "string option"
  attr_domain :: "string option"

text \<open>\<open>window.location\<close> and the elements of the document, in document order.\<close>

record page =
  href :: string
  pathname :: string
  elements :: "element list"

datatype category = Community | Keyword | Author | Domain

datatype log_entry =
    LogHidden category string "string option"
  | LogComment string
  | LogCleanupStart string
  | LogCleanupFound nat string

text \<open>
  The variables of the closure \<open>cls_redditShieldContent\<close>; \<open>console\<close> collects the lines
  written with \<open>console.log\<close>, \<open>badge\<close> the counts sent with \<open>updateBadge\<close>.
\<close>

record engine =
  user_bans :: "string list"
  subreddit_bans :: "string list"
  keyword_bans :: "string list"
  domain_bans :: "string list"
  logging_enabled :: bool
  filter_users :: bool
  filter_keywords :: bool
  filter_subreddits :: bool
  filter_domains :: bool
  filtered_count :: nat
  current_url :: string
  console :: "log_entry list"
  badge :: "nat list"

definition initial_engine :: "string \<Rightarrow> engine" where
  "initial_engine url =
     \<lparr>user_bans = [], subreddit_bans = [], keyword_bans = [], domain_bans = [],
      logging_enabled = False, filter_users = False, filter_keywords = False,
      filter_subreddits = False, filter_domains = False, filtered_count = 0,
      current_url = url, console = [], badge = []\<rparr>"

datatype error = TypeError

section \<open>The matcher of \<open>_posts_ban\<close>\<close>

datatype decision = Keep | Hide category string

text \<open>The \<open>for ... of\<close> loop over the keyword set: the first keyword the title includes.\<close>

fun keyword_loop :: "string \<Rightarrow> string list \<Rightarrow> string option" where
  "keyword_loop lower_title [] = None"
| "keyword_loop lower_title (ban_word # rest) =
     (if str_includes lower_title ban_word then Some ban_word
      else keyword_loop lower_title rest)"

text \<open>
  What the callback of \<open>_visible_posts.forEach\<close> decides for one post. Reading a method of
  \<open>null\<close> (\<open>.slice\<close>, \<open>.toLowerCase\<close>) throws a \<open>TypeError\<close>; \<open>Set.has(null)\<close> is false.
\<close>

definition post_decide :: "engine \<Rightarrow> element \<Rightarrow> error + decision" where
  "post_decide st p =
     (case attr_subreddit_prefixed_name p of
        None \<Rightarrow> Inl TypeError
      | Some spn \<Rightarrow>
          let subreddit = drop 2 spn in
          if filter_subreddits st \<and> set_has (subreddit_bans st) (toLowerCase subreddit)
          then Inr (Hide Community subreddit)
          else
            (case attr_post_title p of
               None \<Rightarrow> Inl TypeError
             | Some title \<Rightarrow>
                 (case (if filter_keywords st
                        then keyword_loop (toLowerCase title) (keyword_bans st) else None) of
                    Some ban_word \<Rightarrow> Inr (Hide Keyword ban_word)
                  | None \<Rightarrow>
                      (case (if filter_users st
                             then (case attr_author p of
                                     None \<Rightarrow> None
                                   | Some a \<Rightarrow> if set_has (user_bans st) a then Some a else None)
                             else None) of
                         Some a \<Rightarrow> Inr (Hide Author a)
                       | None \<Rightarrow>
                           if filter_domains st
                           then (case attr_domain p of
                                   None \<Rightarrow> Inl TypeError
                                 | Some d \<Rightarrow>
                                     if set_has (domain_bans st) (toLowerCase d)
                                     then Inr (Hide Domain d) else Inr Keep)
                           else Inr Keep))))"

text \<open>The effects of a match: the log line when logging is on, and the counter.\<close>

definition count_hidden :: "engine \<Rightarrow> log_entry \<Rightarrow> engine" where
  "count_hidden st l =
     st\<lparr>console := (if logging_enabled st then console st @ [l] else console st),
        filtered_count := filtered_count st + 1\<rparr>"

definition hide :: "element \<Rightarrow> element" where
  "hide e = e\<lparr>display := ''none''\<rparr>"

definition is_visible :: "element \<Rightarrow> bool" where
  "is_visible e = (display e \<noteq> ''none'')"

text \<open>
  The pass over the posts: only \<open>shreddit-post\<close> elements whose computed display is not
  \<open>none\<close> are visited; an exception ends the pass and leaves what was done before it.
\<close>

fun posts_each :: "engine \<Rightarrow> element list \<Rightarrow> error option \<times> engine \<times> element list" where
  "posts_each st [] = (None, st, [])"
| "posts_each st (p # ps) =
     (if tag p = ShredditPost \<and> is_visible p then
        (case post_decide st p of
           Inl e \<Rightarrow> (Some e, st, p # ps)
         | Inr Keep \<Rightarrow>
             (case posts_each st ps of (r, st', ps') \<Rightarrow> (r, st', p # ps'))
         | Inr (Hide c k) \<Rightarrow>
             (case posts_each (count_hidden st (LogHidden c k (attr_post_title p))) ps of
                (r, st', ps') \<Rightarrow> (r, st', hide p # ps')))
      else (case posts_each st ps of (r, st', ps') \<Rightarrow> (r, st', p # ps')))"

definition is_thread :: "page \<Rightarrow> bool" where
  "is_thread pg = str_includes (pathname pg) ''/comments/''"

definition posts_ban :: "engine \<Rightarrow> page \<Rightarrow> error option \<times> engine \<times> page" where
  "posts_ban st pg =
     (if is_thread pg then (None, st, pg)
      else (case posts_each st (elements pg) of
              (r, st', es) \<Rightarrow> (r, st', pg\<lparr>elements := es\<rparr>)))"

text \<open>The pass over the comments; the author is tested for truthiness before the set.\<close>

fun comments_each :: "string list \<Rightarrow> engine \<Rightarrow> element list \<Rightarrow> engine \<times> element list" where
  "comments_each users st [] = (st, [])"
| "comments_each users st (c # cs) =
     (if tag c = ShredditComment \<and> is_visible c then
        (case attr_author c of
           None \<Rightarrow> (case comments_each users st cs of (st', cs') \<Rightarrow> (st', c # cs'))
         | Some a \<Rightarrow>
             if a \<noteq> [] \<and> set_has users a
             then (case comments_each users (count_hidden st (LogComment a)) cs of
                     (st', cs') \<Rightarrow> (st', hide c # cs'))
             else (case comments_each users st cs of (st', cs') \<Rightarrow> (st', c # cs')))
      else (case comments_each users st cs of (st', cs') \<Rightarrow> (st', c # cs')))"

definition comments_ban :: "string list \<Rightarrow> engine \<Rightarrow> page \<Rightarrow> engine \<times> page" where
  "comments_ban users st pg =
     (if \<not> is_thread pg then (st, pg)
      else if \<not> filter_users st then (st, pg)
      else (case comments_each users st (elements pg) of
              (st', es) \<Rightarrow> (st', pg\<lparr>elements := es\<rparr>)))"

definition badge_update :: "engine \<Rightarrow> engine" where
  "badge_update st = st\<lparr>badge := badge st @ [filtered_count st]\<rparr>"

section \<open>Reloading the rule store: \<open>_options_process\<close>\<close>

text \<open>
  The object read from storage. A key that is not stored is \<open>undefined\<close> (here \<open>None\<close>);
  a stored list is truthy, also when it is empty.
\<close>

record stored =
  hiddenUsers :: "string list option"
  hiddenKeywords :: "string list option"
  hiddenSubreddits :: "string list option"
  hiddenDomains :: "string list option"
  loggingEnabled :: "bool option"
  filterUsers :: "bool option"
  filterKeywords :: "bool option"
  filterSubreddits :: "bool option"
  filterDomains :: "bool option"
  blockUsers :: "bool option"
  blockKeywords :: "bool option"
  blockSubreddits :: "bool option"
  blockDomains :: "bool option"

definition clean_user :: "string \<Rightarrow> string" where
  "clean_user user = (if length user \<ge> 2 \<and> take 2 user = ''u/'' then drop 2 user else user)"

definition clean_keyword :: "string \<Rightarrow> string" where
  "clean_keyword keyword = toLowerCase keyword"

definition clean_subreddit :: "string \<Rightarrow> string" where
  "clean_subreddit subreddit =
     toLowerCase (if length subreddit \<ge> 2 \<and> take 2 subreddit = ''r/''
                  then drop 2 subreddit else subreddit)"

text \<open>
  The pattern \<open>/^(?:https?:\/\/)?(?:www\.)?([^\/\?#]+).*$/i\<close>. The two optional groups are
  greedy: each is taken when it is there and given back when the rest then fails. The
  class \<open>[^\/\?#]\<close> accepts line terminators, the dot of \<open>.*\<close> does not, and \<open>$\<close> is the end
  of the input, so the capture is the longest run free of \<open>/\<close>, \<open>?\<close> and \<open>#\<close>, it must not be
  empty, and no line terminator may follow it.
\<close>

definition is_sep :: "char \<Rightarrow> bool" where
  "is_sep c = (c = CHR ''/'' \<or> c = CHR ''?'' \<or> c = CHR ''#'')"

definition is_line_terminator :: "char \<Rightarrow> bool" where
  "is_line_terminator c = (c = CHR 0x0A \<or> c = CHR 0x0D)"

definition match_host :: "string \<Rightarrow> string option" where
  "match_host r =
     (let h = takeWhile (\<lambda>c. \<not> is_sep c) r; rest = dropWhile (\<lambda>c. \<not> is_sep c) r
      in if h \<noteq> [] \<and> list_all (\<lambda>c. \<not> is_line_terminator c) rest then Some h else None)"

definition strip_scheme :: "string \<Rightarrow> string option" where
  "strip_scheme s =
     (if toLowerCase (take 8 s) = ''https://'' then Some (drop 8 s)
      else if toLowerCase (take 7 s) = ''http://'' then Some (drop 7 s)
      else None)"

definition strip_www :: "string \<Rightarrow> string option" where
  "strip_www s = (if toLowerCase (take 4 s) = ''www.'' then Some (drop 4 s) else None)"

definition orelse :: "'a option \<Rightarrow> 'a option \<Rightarrow> 'a option" where
  "orelse a b = (case a of Some x \<Rightarrow> Some x | None \<Rightarrow> b)"

definition match_www_host :: "string \<Rightarrow> string option" where
  "match_www_host r =
     (case strip_www r of
        Some r' \<Rightarrow> orelse (match_host r') (match_host r)
      | None \<Rightarrow> match_host r)"

definition domain_pattern :: "string \<Rightarrow> string option" where
  "domain_pattern s =
     (case strip_scheme s of
        Some r \<Rightarrow> orelse (match_www_host r) (match_www_host s)
      | None \<Rightarrow> match_www_host s)"

text \<open>
  \<open>_domain.replace(_pattern, "$1") || ""\<close>, lower-cased: a match covers the whole input
  and is replaced by its capture, an input without a match is kept.
\<close>

definition clean_domain :: "string \<Rightarrow> string" where
  "clean_domain d = toLowerCase (case domain_pattern d of Some h \<Rightarrow> h | None \<Rightarrow> d)"

definition add_users :: "string list \<Rightarrow> string list \<Rightarrow> string list" where
  "add_users bans us = foldl (\<lambda>s u. set_add s (clean_user u)) bans us"

definition add_keywords :: "string list \<Rightarrow> string list \<Rightarrow> string list" where
  "add_keywords bans ks =
     foldl (\<lambda>s k. if trim k \<noteq> [] then set_add s (clean_keyword k) else s) bans ks"

definition add_subreddits :: "string list \<Rightarrow> string list \<Rightarrow> string list" where
  "add_subreddits bans rs = foldl (\<lambda>s r. set_add s (clean_subreddit r)) bans rs"

definition add_domains :: "string list \<Rightarrow> string list \<Rightarrow> string list" where
  "add_domains bans ds = foldl (\<lambda>s d. set_add s (clean_domain d)) bans ds"

definition process_lists :: "stored \<Rightarrow> engine \<Rightarrow> engine" where
  "process_lists result st =
     st\<lparr>user_bans := (case hiddenUsers result of None \<Rightarrow> [] | Some us \<Rightarrow> add_users [] us),
        keyword_bans :=
          (case hiddenKeywords result of None \<Rightarrow> [] | Some ks \<Rightarrow> add_keywords [] ks),
        subreddit_bans :=
          (case hiddenSubreddits result of None \<Rightarrow> [] | Some rs \<Rightarrow> add_subreddits [] rs),
        domain_bans :=
          (case hiddenDomains result of None \<Rightarrow> [] | Some ds \<Rightarrow> add_domains [] ds)\<rparr>"

text \<open>
  A flag is assigned only under \<open>!== undefined\<close>: from the current key, else from the
  legacy key, else it is left as it is.
\<close>

definition flag_from :: "bool option \<Rightarrow> bool option \<Rightarrow> bool \<Rightarrow> bool" where
  "flag_from current legacy old =
     (case current of
        Some b \<Rightarrow> b
      | None \<Rightarrow> (case legacy of Some b \<Rightarrow> b | None \<Rightarrow> old))"

definition process_flags :: "stored \<Rightarrow> engine \<Rightarrow> engine" where
  "process_flags result st =
     st\<lparr>logging_enabled := flag_from (loggingEnabled result) None (logging_enabled st),
        filter_users := flag_from (filterUsers result) (blockUsers result) (filter_users st),
        filter_keywords :=
          flag_from (filterKeywords result) (blockKeywords result) (filter_keywords st),
        filter_subreddits :=
          flag_from (filterSubreddits result) (blockSubreddits result) (filter_subreddits st),
        filter_domains :=
          flag_from (filterDomains result) (blockDomains result) (filter_domains st)\<rparr>"

definition check_navigation :: "page \<Rightarrow> engine \<Rightarrow> engine" where
  "check_navigation pg st =
     (if href pg \<noteq> current_url st
      then st\<lparr>filtered_count := 0, current_url := href pg\<rparr>
      else st)"

text \<open>
  The two passes and the badge. An exception of \<open>_posts_ban\<close> leaves \<open>_options_process\<close>:
  the comments pass and the badge update do not run.
\<close>

definition apply_filtering :: "engine \<Rightarrow> page \<Rightarrow> error option \<times> engine \<times> page" where
  "apply_filtering st pg =
     (case posts_ban st pg of
        (Some e, st', pg') \<Rightarrow> (Some e, st', pg')
      | (None, st', pg') \<Rightarrow>
          (case comments_ban (user_bans st') st' pg' of
             (st'', pg'') \<Rightarrow> (None, badge_update st'', pg'')))"

definition options_process :: "stored \<Rightarrow> engine \<Rightarrow> page \<Rightarrow> error option \<times> engine \<times> page" where
  "options_process result st pg =
     apply_filtering (check_navigation pg (process_flags result (process_lists result st))) pg"

definition fault_of :: "error option \<times> engine \<times> page \<Rightarrow> error option" where
  "fault_of r = fst r"

definition engine_of :: "error option \<times> engine \<times> page \<Rightarrow> engine" where
  "engine_of r = fst (snd r)"

definition page_of :: "error option \<times> engine \<times> page \<Rightarrow> page" where
  "page_of r = snd (snd r)"

definition no_stored :: stored where
  "no_stored =
     \<lparr>hiddenUsers = None, hiddenKeywords = None, hiddenSubreddits = None,
      hiddenDomains = None, loggingEnabled = None, filterUsers = None,
      filterKeywords = None, filterSubreddits = None, filterDomains = None,
      blockUsers = None, blockKeywords = None, blockSubreddits = None,
      blockDomains = None\<rparr>"

section \<open>Cleanup requests\<close>

datatype jsvalue = JNum nat | JBool bool | JStr string | JList "string list"

text \<open>An object literal: its fields in the order written.\<close>

type_synonym jsobject = "(string \<times> jsvalue) list"

definition log :: "engine \<Rightarrow> log_entry \<Rightarrow> engine" where
  "log st l = (if logging_enabled st then st\<lparr>console := console st @ [l]\<rparr> else st)"

text \<open>
  \<open>_cleanup_get_users\<close>: the \<open>reduce\<close> over every post and comment of the document, hidden
  or not, pushing each truthy author that the author set does not have.
\<close>

definition cleanup_get_users :: "engine \<Rightarrow> page \<Rightarrow> string list" where
  "cleanup_get_users st pg =
     foldl (\<lambda>accumulated_bans comment.
              (case attr_author comment of
                 None \<Rightarrow> accumulated_bans
               | Some a \<Rightarrow>
                   if a \<noteq> [] \<and> \<not> set_has (user_bans st) a
                   then accumulated_bans @ [a] else accumulated_bans))
           [] (elements pg)"

definition posts_of :: "page \<Rightarrow> element list" where
  "posts_of pg = filter (\<lambda>e. tag e = ShredditPost) (elements pg)"

definition cleanup_get_keywords :: "engine \<Rightarrow> page \<Rightarrow> string list" where
  "cleanup_get_keywords st pg =
     foldl (\<lambda>found keyword.
              foldl (\<lambda>found post.
                       (case attr_post_title post of
                          None \<Rightarrow> found
                        | Some title \<Rightarrow>
                            if title \<noteq> [] \<and>
                               str_includes (toLowerCase title) (toLowerCase keyword)
                            then set_add found (toLowerCase keyword) else found))
                    found (posts_of pg))
           [] (keyword_bans st)"

definition cleanup_get_subreddits :: "engine \<Rightarrow> page \<Rightarrow> string list" where
  "cleanup_get_subreddits st pg =
     foldl (\<lambda>found subreddit.
              foldl (\<lambda>found post.
                       (case attr_subreddit_prefixed_name post of
                          None \<Rightarrow> found
                        | Some subreddit_full \<Rightarrow>
                            if subreddit_full \<noteq> [] \<and>
                               toLowerCase (drop 2 subreddit_full) = toLowerCase subreddit
                            then set_add found (toLowerCase subreddit) else found))
                    found (posts_of pg))
           [] (subreddit_bans st)"

text \<open>
  \<open>_cleanup_request_handle\<close>: three \<open>if\<close> statements in a row, one per action. The first
  component of the result collects the objects passed to \<open>_send_response\<close>.
\<close>

type_synonym handled = "jsobject list \<times> engine \<times> page"

definition handle_users :: "string \<Rightarrow> handled \<Rightarrow> handled" where
  "handle_users action h =
     (case h of (sent, st, pg) \<Rightarrow>
        if action = ''cleanupUsers'' then
          (if \<not> is_thread pg
           then (sent @ [[(''status'', JNum 400), (''message'', JStr ''Can only cleanup threads'')]],
                 st, pg)
           else
             (let st1 = log st (LogCleanupStart ''Thread cleanup initiated'');
                  users_to_ban = cleanup_get_users st1 pg;
                  st2 = log st1 (LogCleanupFound (length users_to_ban) ''users to filter'');
                  sent' = sent @ [[(''status'', JNum 200), (''message'', JList users_to_ban)]]
              in (case comments_ban (foldl set_add [] users_to_ban) st2 pg of
                    (st3, pg3) \<Rightarrow> (sent', st3, pg3))))
        else h)"

definition handle_keywords :: "string \<Rightarrow> handled \<Rightarrow> handled" where
  "handle_keywords action h =
     (case h of (sent, st, pg) \<Rightarrow>
        if action = ''cleanupKeywords'' then
          (let st1 = log st (LogCleanupStart ''Keywords cleanup initiated'');
               found_keywords = cleanup_get_keywords st1 pg;
               st2 = log st1 (LogCleanupFound (length found_keywords) ''keywords on page'')
           in (sent @ [[(''status'', JNum 200), (''message'', JList found_keywords)]], st2, pg))
        else h)"

definition handle_subreddits :: "string \<Rightarrow> handled \<Rightarrow> handled" where
  "handle_subreddits action h =
     (case h of (sent, st, pg) \<Rightarrow>
        if action = ''cleanupSubreddits'' then
          (let st1 = log st (LogCleanupStart ''Subreddits cleanup initiated'');
               found_subreddits = cleanup_get_subreddits st1 pg;
               st2 = log st1 (LogCleanupFound (length found_subreddits) ''subreddits on page'')
           in (sent @ [[(''status'', JNum 200), (''message'', JList found_subreddits)]], st2, pg))
        else h)"

definition cleanup_request_handle :: "string \<Rightarrow> engine \<Rightarrow> page \<Rightarrow> handled" where
  "cleanup_request_handle action st pg =
     handle_subreddits action (handle_keywords action (handle_users action ([], st, pg)))"

text \<open>Reading a field of an object: \<open>undefined\<close> (here \<open>None\<close>) when it has no such field.\<close>

definition field :: "jsobject \<Rightarrow> string \<Rightarrow> jsvalue option" where
  "field obj k = map_of obj k"

section \<open>The popup: \<open>_data_save\<close> and \<open>_data_migrate\<close>\<close>

text \<open>The text areas and check boxes of the popup.\<close>

record form =
  userList :: string
  keywordList :: string
  subredditList :: string
  domainList :: string
  cb_loggingEnabled :: bool
  cb_filterUsers :: bool
  cb_filterKeywords :: bool
  cb_filterSubreddits :: bool
  cb_filterDomains :: bool
  cb_enableSync :: bool

text \<open>The two storage areas, each a mapping from keys to values.\<close>

datatype area = Local | Sync

record storage =
  local_area :: "string \<rightharpoonup> jsvalue"
  sync_area :: "string \<rightharpoonup> jsvalue"

datatype storage_op = SetItems area jsobject | RemoveKeys area "string list"

definition area_of :: "storage \<Rightarrow> area \<Rightarrow> (string \<rightharpoonup> jsvalue)" where
  "area_of s a = (case a of Local \<Rightarrow> local_area s | Sync \<Rightarrow> sync_area s)"

definition area_update :: "area \<Rightarrow> ((string \<rightharpoonup> jsvalue) \<Rightarrow> (string \<rightharpoonup> jsvalue)) \<Rightarrow> storage \<Rightarrow> storage" where
  "area_update a f s =
     (case a of
        Local \<Rightarrow> s\<lparr>local_area := f (local_area s)\<rparr>
      | Sync \<Rightarrow> s\<lparr>sync_area := f (sync_area s)\<rparr>)"

text \<open>\<open>set\<close> writes each field of the object, \<open>remove\<close> deletes each listed key.\<close>

fun set_items :: "jsobject \<Rightarrow> (string \<rightharpoonup> jsvalue) \<Rightarrow> (string \<rightharpoonup> jsvalue)" where
  "set_items [] m = m"
| "set_items ((k, v) # kvs) m = set_items kvs (m(k \<mapsto> v))"

fun remove_keys :: "string list \<Rightarrow> (string \<rightharpoonup> jsvalue) \<Rightarrow> (string \<rightharpoonup> jsvalue)" where
  "remove_keys [] m = m"
| "remove_keys (k # ks) m = remove_keys ks (m(k := None))"

fun run_op :: "storage \<Rightarrow> storage_op \<Rightarrow> storage" where
  "run_op s (SetItems a obj) = area_update a (set_items obj) s"
| "run_op s (RemoveKeys a ks) = area_update a (remove_keys ks) s"

definition run_ops :: "storage_op list \<Rightarrow> storage \<Rightarrow> storage" where
  "run_ops ops s = foldl run_op s ops"

definition storage_area_get :: "form \<Rightarrow> area" where
  "storage_area_get f = (if cb_enableSync f then Sync else Local)"

definition lines_of :: "string \<Rightarrow> string list" where
  "lines_of text = map trim (split_lines text)"

definition data_to_save :: "form \<Rightarrow> jsobject" where
  "data_to_save f =
     [(''hiddenUsers'', JList (lines_of (userList f))),
      (''hiddenKeywords'', JList (lines_of (keywordList f))),
      (''hiddenSubreddits'', JList (lines_of (subredditList f))),
      (''hiddenDomains'', JList (lines_of (domainList f))),
      (''loggingEnabled'', JBool (cb_loggingEnabled f)),
      (''filterUsers'', JBool (cb_filterUsers f)),
      (''filterKeywords'', JBool (cb_filterKeywords f)),
      (''filterSubreddits'', JBool (cb_filterSubreddits f)),
      (''filterDomains'', JBool (cb_filterDomains f)),
      (''enableSync'', JBool (cb_enableSync f))]"

definition keys_to_remove :: "string list" where
  "keys_to_remove =
     [''hiddenUsers'', ''hiddenKeywords'', ''hiddenSubreddits'', ''hiddenDomains'',
      ''loggingEnabled'', ''expandImages'', ''filterUsers'', ''filterKeywords'',
      ''filterSubreddits'', ''filterDomains'', ''blockUsers'', ''blockKeywords'',
      ''blockSubreddits'', ''blockDomains'']"

definition data_migrate :: "bool \<Rightarrow> storage_op list" where
  "data_migrate enable_sync =
     [RemoveKeys (if enable_sync then Local else Sync) keys_to_remove]"

text \<open>The storage calls of \<open>_data_save\<close>, in the order they are made.\<close>

definition data_save_ops :: "form \<Rightarrow> storage_op list" where
  "data_save_ops f =
     [SetItems Local [(''enableSync'', JBool (cb_enableSync f))],
      SetItems (storage_area_get f) (data_to_save f)]
     @ data_migrate (cb_enableSync f)"

definition data_save :: "form \<Rightarrow> storage \<Rightarrow> storage" where
  "data_save f s = run_ops (data_save_ops f) s"

text \<open>The key lists the scripts name: \<open>__storage_keys\<close> and the legacy keys.\<close>

definition storage_keys :: "string list" where
  "storage_keys =
     [''hiddenUsers'', ''hiddenKeywords'', ''hiddenSubreddits'', ''hiddenDomains'',
      ''loggingEnabled'', ''filterUsers'', ''filterKeywords'', ''filterSubreddits'',
      ''filterDomains'']"

definition legacy_keys :: "string list" where
  "legacy_keys = [''blockUsers'', ''blockKeywords'', ''blockSubreddits'', ''blockDomains'']"

section \<open>What the specification says, and the inputs of the examples\<close>





text \<open>The specification's preference flag: current key, else legacy key, else false.\<close>

definition spec_flag :: "bool option \<Rightarrow> bool option \<Rightarrow> bool" where
  "spec_flag current legacy =
     (case current of
        Some b \<Rightarrow> b
      | None \<Rightarrow> (case legacy of Some b \<Rightarrow> b | None \<Rightarrow> False))"

text \<open>The elements a pass hides: visible before it, not visible after it.\<close>

definition newly_hidden :: "element list \<Rightarrow> element list \<Rightarrow> nat" where
  "newly_hidden es es' =
     length (filter (\<lambda>(a, b). is_visible a \<and> \<not> is_visible b) (zip es es'))"

text \<open>Two engine states with the same rule sets and flags decide alike.\<close>

definition same_rules :: "engine \<Rightarrow> engine \<Rightarrow> bool" where
  "same_rules a b =
     (user_bans a = user_bans b \<and> subreddit_bans a = subreddit_bans b \<and>
      keyword_bans a = keyword_bans b \<and> domain_bans a = domain_bans b \<and>
      logging_enabled a = logging_enabled b \<and> filter_users a = filter_users b \<and>
      filter_keywords a = filter_keywords b \<and> filter_subreddits a = filter_subreddits b \<and>
      filter_domains a = filter_domains b)"

text \<open>The engine state \<open>_options_process\<close> scans with.\<close>

definition prepare :: "stored \<Rightarrow> engine \<Rightarrow> page \<Rightarrow> engine" where
  "prepare result st pg = check_navigation pg (process_flags result (process_lists result st))"

text \<open>
  The specification's rules, read off the stored record: a raw rule matches an element when
  its normalized form equals the element's field (lower-cased for communities and domains),
  a raw keyword when it is not blank and its lower-cased form is a substring of the
  lower-cased title.
\<close>

definition raw :: "string list option \<Rightarrow> string list" where
  "raw l = (case l of None \<Rightarrow> [] | Some xs \<Rightarrow> xs)"



text \<open>A rule that some post of the page matches, as the cleanup collectors test it.\<close>

definition title_has :: "page \<Rightarrow> string \<Rightarrow> bool" where
  "title_has pg keyword =
     list_ex (\<lambda>post. case attr_post_title post of
                       None \<Rightarrow> False
                     | Some title \<Rightarrow>
                         title \<noteq> [] \<and> str_includes (toLowerCase title) (toLowerCase keyword))
             (posts_of pg)"

definition community_has :: "page \<Rightarrow> string \<Rightarrow> bool" where
  "community_has pg subreddit =
     list_ex (\<lambda>post. case attr_subreddit_prefixed_name post of
                       None \<Rightarrow> False
                     | Some full \<Rightarrow>
                         full \<noteq> [] \<and> toLowerCase (drop 2 full) = toLowerCase subreddit)
             (posts_of pg)"

subsection \<open>Example pages, rule stores and storage records\<close>

definition front_url :: string where
  "front_url = ''https://www.reddit.com/''"

definition thread_url :: string where
  "thread_url = ''https://www.reddit.com/r/news/comments/abc/title/''"

definition empty_listing :: page where
  "empty_listing = \<lparr>href = front_url, pathname = ''/'', elements = []\<rparr>"

definition listing_with :: "element \<Rightarrow> page" where
  "listing_with e = \<lparr>href = front_url, pathname = ''/'', elements = [e]\<rparr>"

definition shop_stored :: stored where
  "shop_stored =
     no_stored\<lparr>hiddenKeywords := Some [''SALE'', '' '', ''big''],
               hiddenSubreddits := Some [''r/Funny''],
               filterKeywords := Some True, filterSubreddits := Some True\<rparr>"


definition counting_engine :: "string \<Rightarrow> nat \<Rightarrow> engine" where
  "counting_engine url n = (initial_engine url)\<lparr>filtered_count := n\<rparr>"

definition sale_post :: "string \<Rightarrow> element" where
  "sale_post community =
     \<lparr>tag = ShredditPost, display = ''block'',
      attr_subreddit_prefixed_name = Some community,
      attr_post_title = Some ''Big Sale Today'', attr_author = Some ''carol'',
      attr_domain = Some ''i.redd.it''\<rparr>"

definition comment_by :: "string \<Rightarrow> element" where
  "comment_by a =
     \<lparr>tag = ShredditComment, display = ''block'', attr_subreddit_prefixed_name = None,
      attr_post_title = None, attr_author = Some a, attr_domain = None\<rparr>"

definition thread_page :: page where
  "thread_page =
     \<lparr>href = thread_url, pathname = ''/r/news/comments/abc/title/'',
      elements = [comment_by ''alice'', comment_by ''bob'', comment_by ''alice'']\<rparr>"

definition users_on :: stored where
  "users_on = no_stored\<lparr>filterUsers := Some True\<rparr>"

definition engine_users_on :: engine where
  "engine_users_on =
     engine_of (options_process users_on (initial_engine front_url) empty_listing)"

text \<open>What \<open>_data_save\<close> stores for empty text areas, with the domain filter switched on.\<close>

definition empty_form_stored :: stored where
  "empty_form_stored =
     no_stored\<lparr>hiddenUsers := Some (lines_of ''''), hiddenKeywords := Some (lines_of ''''),
               hiddenSubreddits := Some (lines_of ''  ''), hiddenDomains := Some (lines_of ''''),
               filterDomains := Some True\<rparr>"

definition news_post :: "string option \<Rightarrow> element" where
  "news_post d =
     \<lparr>tag = ShredditPost, display = ''block'', attr_subreddit_prefixed_name = Some ''r/news'',
      attr_post_title = Some ''Hello'', attr_author = Some ''dave'', attr_domain = d\<rparr>"

text \<open>A listing with a post that an earlier scan has hidden and two visible posts.\<close>

definition two_posts :: page where
  "two_posts =
     \<lparr>href = front_url, pathname = ''/'',
      elements = [hide (sale_post ''r/Funny''), sale_post ''r/news'',
                  news_post (Some ''i.redd.it'')]\<rparr>"



text \<open>A popup with synchronisation switched off, over storage that was synchronised.\<close>

definition local_form :: form where
  "local_form =
     \<lparr>userList = [CHR ''b'', CHR ''o'', CHR ''b'', CHR 0x0A,
                  CHR ''u'', CHR ''/'', CHR ''e'', CHR ''v'', CHR ''e''],
      keywordList = ''sale'', subredditList = '''', domainList = '''',
      cb_loggingEnabled = False, cb_filterUsers = True, cb_filterKeywords = True,
      cb_filterSubreddits = False, cb_filterDomains = False, cb_enableSync = False\<rparr>"

definition synced_storage :: storage where
  "synced_storage =
     \<lparr>local_area = [''enableSync'' \<mapsto> JBool True],
      sync_area = [''hiddenUsers'' \<mapsto> JList [''bob''], ''filterUsers'' \<mapsto> JBool True,
                   ''blockUsers'' \<mapsto> JBool True, ''enableSync'' \<mapsto> JBool True]\<rparr>"











text \<open>
  The normalizer of a category, from the text area to the rule set: the popup trims each
  line when it saves (\<open>_data_save\<close>), the content script cleans the stored line when it
  reloads (\<open>_options_process\<close>).
\<close>

definition normalize_user :: "string \<Rightarrow> string" where
  "normalize_user s = clean_user (trim s)"

definition normalize_keyword :: "string \<Rightarrow> string" where
  "normalize_keyword s = clean_keyword (trim s)"

definition normalize_subreddit :: "string \<Rightarrow> string" where
  "normalize_subreddit s = clean_subreddit (trim s)"

definition normalize_domain :: "string \<Rightarrow> string" where
  "normalize_domain s = clean_domain (trim s)"

section \<open>Strings\<close>

lemma toLowerCase_char_idem: "toLowerCase_char (toLowerCase_char c) = toLowerCase_char c"
proof -
  define n where "n = (of_char c :: nat)"
  have "n < 256" unfolding n_def by simp
  then show ?thesis
    unfolding toLowerCase_char_def Let_def n_def[symmetric]
    by (auto simp: n_def[symmetric])
qed

lemma toLowerCase_idem: "toLowerCase (toLowerCase s) = toLowerCase s"
  by (simp add: toLowerCase_def toLowerCase_char_idem)

lemma starts_with_iff: "starts_with t k \<longleftrightarrow> (\<exists>ss. t = k @ ss)"
  unfolding starts_with_def
  by (metis append_eq_conv_conj append_take_drop_id)

text \<open>The substring loop finds exactly the substrings.\<close>

lemma str_includes_iff: "str_includes t k \<longleftrightarrow> (\<exists>ps ss. t = ps @ k @ ss)"
proof (induction t)
  case Nil
  then show ?case by auto
next
  case (Cons c cs)
  show ?case
  proof
    assume "str_includes (c # cs) k"
    then consider "starts_with (c # cs) k" | "str_includes cs k" by auto
    then show "\<exists>ps ss. c # cs = ps @ k @ ss"
    proof cases
      case 1
      then obtain ss where "c # cs = k @ ss" by (auto simp: starts_with_iff)
      then have "c # cs = [] @ k @ ss" by simp
      then show ?thesis by blast
    next
      case 2
      with Cons.IH obtain ps ss where "cs = ps @ k @ ss" by blast
      then have "c # cs = (c # ps) @ k @ ss" by simp
      then show ?thesis by blast
    qed
  next
    assume "\<exists>ps ss. c # cs = ps @ k @ ss"
    then obtain ps ss where e: "c # cs = ps @ k @ ss" by blast
    show "str_includes (c # cs) k"
    proof (cases ps)
      case Nil
      with e have "starts_with (c # cs) k" by (auto simp: starts_with_iff)
      then show ?thesis by simp
    next
      case (Cons q qs)
      with e have "cs = qs @ k @ ss" by simp
      with Cons.IH have "str_includes cs k" by blast
      then show ?thesis by simp
    qed
  qed
qed




section \<open>The matcher\<close>





section \<open>The passes and the counter\<close>

lemma same_rules_refl: "same_rules a a"
  by (simp add: same_rules_def)

lemma same_rules_count_hidden: "same_rules (count_hidden st l) st"
  by (simp add: same_rules_def count_hidden_def)

lemma same_rules_trans: "same_rules a b \<Longrightarrow> same_rules b c \<Longrightarrow> same_rules a c"
  by (simp add: same_rules_def)

lemma same_rules_sym: "same_rules a b \<Longrightarrow> same_rules b a"
  by (simp add: same_rules_def)

lemma post_decide_same_rules: "same_rules a b \<Longrightarrow> post_decide a p = post_decide b p"
  by (simp add: same_rules_def post_decide_def cong: if_cong option.case_cong)

lemma count_hidden_fields:
  "filtered_count (count_hidden st l) = Suc (filtered_count st)"
  "current_url (count_hidden st l) = current_url st"
  by (simp_all add: count_hidden_def)

lemma not_visible_hide: "\<not> is_visible (hide p)"
  by (simp add: is_visible_def hide_def)

lemma newly_hidden_Cons:
  "newly_hidden (a # es) (b # es') =
     (if is_visible a \<and> \<not> is_visible b then 1 else 0) + newly_hidden es es'"
  by (simp add: newly_hidden_def)

lemma newly_hidden_same: "newly_hidden es es = 0"
  by (induction es) (auto simp: newly_hidden_Cons, simp add: newly_hidden_def)

text \<open>
  A pass over the posts adds to the counter the number of elements it hides and leaves
  the rules and the tracked address alone, also when it ends in an exception.
\<close>

lemma posts_each_effect:
  "posts_each st es = (r, st', es') \<Longrightarrow>
     filtered_count st' = filtered_count st + newly_hidden es es' \<and>
     length es' = length es \<and> current_url st' = current_url st \<and> same_rules st' st"
proof (induction es arbitrary: st r st' es')
  case Nil
  then show ?case by (simp add: newly_hidden_def same_rules_refl)
next
  case (Cons p ps)
  show ?case
  proof (cases "tag p = ShredditPost \<and> is_visible p")
    case False
    with Cons.prems obtain ps' where
      rec: "posts_each st ps = (r, st', ps')" and es': "es' = p # ps'"
      by (auto split: prod.splits)
    from Cons.IH [OF rec] es' show ?thesis
      by (simp add: newly_hidden_Cons)
  next
    case True
    show ?thesis
    proof (cases "post_decide st p")
      case (Inl e)
      with True Cons.prems have "st' = st" "es' = p # ps" by auto
      then show ?thesis
        by (simp add: newly_hidden_same same_rules_refl)
    next
      case (Inr d)
      show ?thesis
      proof (cases d)
        case Keep
        with True Inr Cons.prems obtain ps' where
          rec: "posts_each st ps = (r, st', ps')" and es': "es' = p # ps'"
          by (auto split: prod.splits)
        from Cons.IH [OF rec] es' show ?thesis
          by (simp add: newly_hidden_Cons)
      next
        case (Hide c k)
        with True Inr Cons.prems obtain ps' where
          rec: "posts_each (count_hidden st (LogHidden c k (attr_post_title p))) ps
                  = (r, st', ps')"
          and es': "es' = hide p # ps'"
          by (auto split: prod.splits)
        from Cons.IH [OF rec] es' True show ?thesis
          by (auto simp: newly_hidden_Cons count_hidden_fields not_visible_hide
                intro: same_rules_trans [OF _ same_rules_count_hidden])
      qed
    qed
  qed
qed

text \<open>A second pass, with the same rules, over the elements the first pass left changes nothing.\<close>

lemma posts_each_again:
  "posts_each st es = (r, st', es') \<Longrightarrow> same_rules st2 st \<Longrightarrow>
     posts_each st2 es' = (r, st2, es')"
proof (induction es arbitrary: st r st' es' st2)
  case Nil
  then show ?case by simp
next
  case (Cons p ps)
  note dec = post_decide_same_rules [OF Cons.prems(2), of p]
  show ?case
  proof (cases "tag p = ShredditPost \<and> is_visible p")
    case False
    with Cons.prems obtain ps' where
      rec: "posts_each st ps = (r, st', ps')" and es': "es' = p # ps'"
      by (auto split: prod.splits)
    from Cons.IH [OF rec Cons.prems(2)] es' False show ?thesis
      by auto
  next
    case True
    show ?thesis
    proof (cases "post_decide st p")
      case (Inl e)
      with True Cons.prems have "r = Some e" "es' = p # ps" by auto
      with True Inl dec show ?thesis by simp
    next
      case (Inr d)
      show ?thesis
      proof (cases d)
        case Keep
        with True Inr Cons.prems obtain ps' where
          rec: "posts_each st ps = (r, st', ps')" and es': "es' = p # ps'"
          by (auto split: prod.splits)
        from Cons.IH [OF rec Cons.prems(2)] es' True Inr Keep dec show ?thesis
          by simp
      next
        case (Hide c k)
        with True Inr Cons.prems obtain ps' where
          rec: "posts_each (count_hidden st (LogHidden c k (attr_post_title p))) ps
                  = (r, st', ps')"
          and es': "es' = hide p # ps'"
          by (auto split: prod.splits)
        have "same_rules st2 (count_hidden st (LogHidden c k (attr_post_title p)))"
          using Cons.prems(2) same_rules_count_hidden same_rules_sym same_rules_trans
          by blast
        from Cons.IH [OF rec this] es' show ?thesis
          by (simp add: not_visible_hide)
      qed
    qed
  qed
qed

lemma comments_each_effect:
  "comments_each us st es = (st', es') \<Longrightarrow>
     filtered_count st' = filtered_count st + newly_hidden es es' \<and>
     length es' = length es \<and> current_url st' = current_url st \<and> same_rules st' st"
proof (induction es arbitrary: st st' es')
  case Nil
  then show ?case by (simp add: newly_hidden_def same_rules_refl)
next
  case (Cons c cs)
  show ?case
  proof (cases "tag c = ShredditComment \<and> is_visible c \<and>
                (\<exists>a. attr_author c = Some a \<and> a \<noteq> [] \<and> set_has us a)")
    case False
    with Cons.prems obtain cs' where
      rec: "comments_each us st cs = (st', cs')" and es': "es' = c # cs'"
      by (auto split: prod.splits option.splits if_splits)
    from Cons.IH [OF rec] es' show ?thesis
      by (simp add: newly_hidden_Cons)
  next
    case True
    then obtain a where a: "attr_author c = Some a" "a \<noteq> []" "set_has us a" by blast
    with True Cons.prems obtain cs' where
      rec: "comments_each us (count_hidden st (LogComment a)) cs = (st', cs')"
      and es': "es' = hide c # cs'"
      by (auto split: prod.splits)
    from Cons.IH [OF rec] es' True show ?thesis
      by (auto simp: newly_hidden_Cons count_hidden_fields not_visible_hide
            intro: same_rules_trans [OF _ same_rules_count_hidden])
  qed
qed

lemma comments_each_again:
  "comments_each us st es = (st', es') \<Longrightarrow> comments_each us st2 es' = (st2, es')"
proof (induction es arbitrary: st st' es' st2)
  case Nil
  then show ?case by simp
next
  case (Cons c cs)
  show ?case
  proof (cases "tag c = ShredditComment \<and> is_visible c \<and>
                (\<exists>a. attr_author c = Some a \<and> a \<noteq> [] \<and> set_has us a)")
    case False
    with Cons.prems obtain cs' where
      rec: "comments_each us st cs = (st', cs')" and es': "es' = c # cs'"
      by (auto split: prod.splits option.splits if_splits)
    from Cons.IH [OF rec, of st2] es' False show ?thesis
      by (auto split: option.splits)
  next
    case True
    then obtain a where a: "attr_author c = Some a" "a \<noteq> []" "set_has us a" by blast
    with True Cons.prems obtain cs' where
      rec: "comments_each us (count_hidden st (LogComment a)) cs = (st', cs')"
      and es': "es' = hide c # cs'"
      by (auto split: prod.splits)
    from Cons.IH [OF rec, of st2] es' show ?thesis
      by (simp add: not_visible_hide)
  qed
qed

lemma is_thread_elements: "is_thread (pg\<lparr>elements := es\<rparr>) = is_thread pg"
  by (simp add: is_thread_def)

lemma posts_ban_effect:
  assumes "posts_ban st pg = (r, st', pg')"
  shows "filtered_count st' = filtered_count st + newly_hidden (elements pg) (elements pg')"
    and "current_url st' = current_url st" and "same_rules st' st"
    and "href pg' = href pg" and "pathname pg' = pathname pg"
    and "is_thread pg \<Longrightarrow> pg' = pg \<and> st' = st \<and> r = None"
    and "same_rules st2 st \<Longrightarrow> posts_ban st2 pg' = (r, st2, pg')"
proof -
  show "is_thread pg \<Longrightarrow> pg' = pg \<and> st' = st \<and> r = None"
    using assms by (simp add: posts_ban_def)
  show "filtered_count st' = filtered_count st + newly_hidden (elements pg) (elements pg')"
    "current_url st' = current_url st" "same_rules st' st"
    "href pg' = href pg" "pathname pg' = pathname pg"
    using assms
    by (auto simp: posts_ban_def newly_hidden_same same_rules_refl
          split: if_splits prod.splits dest: posts_each_effect)
  show "posts_ban st2 pg' = (r, st2, pg')" if s: "same_rules st2 st"
  proof (cases "is_thread pg")
    case True
    with assms show ?thesis by (auto simp: posts_ban_def)
  next
    case False
    with assms obtain es where e: "posts_each st (elements pg) = (r, st', es)"
      and pg': "pg' = pg\<lparr>elements := es\<rparr>"
      by (auto simp: posts_ban_def split: prod.splits)
    from posts_each_again [OF e s] pg' False show ?thesis
      by (simp add: posts_ban_def is_thread_elements)
  qed
qed

lemma comments_ban_effect:
  assumes "comments_ban us st pg = (st', pg')"
  shows "filtered_count st' = filtered_count st + newly_hidden (elements pg) (elements pg')"
    and "current_url st' = current_url st" and "same_rules st' st"
    and "href pg' = href pg" and "pathname pg' = pathname pg"
    and "\<not> is_thread pg \<Longrightarrow> pg' = pg \<and> st' = st"
    and "same_rules st2 st \<Longrightarrow> comments_ban us st2 pg' = (st2, pg')"
proof -
  show "\<not> is_thread pg \<Longrightarrow> pg' = pg \<and> st' = st"
    using assms by (simp add: comments_ban_def)
  show "filtered_count st' = filtered_count st + newly_hidden (elements pg) (elements pg')"
    "current_url st' = current_url st" "same_rules st' st"
    "href pg' = href pg" "pathname pg' = pathname pg"
    using assms
    by (auto simp: comments_ban_def newly_hidden_same same_rules_refl
          split: if_splits prod.splits dest: comments_each_effect)
  show "comments_ban us st2 pg' = (st2, pg')" if s: "same_rules st2 st"
  proof (cases "is_thread pg \<and> filter_users st")
    case False
    with assms s show ?thesis
      by (auto simp: comments_ban_def same_rules_def split: if_splits)
  next
    case True
    with assms obtain es where e: "comments_each us st (elements pg) = (st', es)"
      and pg': "pg' = pg\<lparr>elements := es\<rparr>"
      by (auto simp: comments_ban_def split: prod.splits)
    from comments_each_again [OF e, of st2] pg' True s show ?thesis
      by (simp add: comments_ban_def is_thread_elements same_rules_def)
  qed
qed

lemma same_rules_badge_update: "same_rules (badge_update st) st"
  by (simp add: same_rules_def badge_update_def)

lemma badge_update_fields:
  "filtered_count (badge_update st) = filtered_count st"
  "current_url (badge_update st) = current_url st"
  by (simp_all add: badge_update_def)

lemma apply_filtering_effect:
  assumes "apply_filtering st pg = (r, st', pg')"
  shows "filtered_count st' = filtered_count st + newly_hidden (elements pg) (elements pg')"
    and "current_url st' = current_url st" and "same_rules st' st" and "href pg' = href pg"
proof -
  obtain r1 st1 pg1 where p: "posts_ban st pg = (r1, st1, pg1)"
    by (metis prod_cases3)
  note pe = posts_ban_effect [OF p]
  show "filtered_count st' = filtered_count st + newly_hidden (elements pg) (elements pg')"
    and "current_url st' = current_url st" and "same_rules st' st" and "href pg' = href pg"
  proof (atomize (full), cases r1)
    case (Some e)
    with assms p have "st' = st1" "pg' = pg1" by (simp_all add: apply_filtering_def)
    with pe show "(filtered_count st' =
        filtered_count st + newly_hidden (elements pg) (elements pg') \<and>
        current_url st' = current_url st) \<and> same_rules st' st \<and> href pg' = href pg"
      by simp
  next
    case None
    obtain st2 pg2 where c: "comments_ban (user_bans st1) st1 pg1 = (st2, pg2)"
      by (metis surj_pair)
    note ce = comments_ban_effect [OF c]
    from None assms p c have e: "st' = badge_update st2" "pg' = pg2"
      by (simp_all add: apply_filtering_def)
    have n: "filtered_count st2 = filtered_count st + newly_hidden (elements pg) (elements pg2)"
    proof (cases "is_thread pg")
      case True
      with pe(6) have "pg1 = pg" "st1 = st" by simp_all
      with ce(1) show ?thesis by simp
    next
      case False
      with pe(5) have "\<not> is_thread pg1" by (simp add: is_thread_def)
      with ce(6) have "pg2 = pg1" "st2 = st1" by simp_all
      with pe(1) show ?thesis by simp
    qed
    from n e pe ce show "(filtered_count st' =
        filtered_count st + newly_hidden (elements pg) (elements pg') \<and>
        current_url st' = current_url st) \<and> same_rules st' st \<and> href pg' = href pg"
      by (auto simp: badge_update_fields
            intro: same_rules_trans [OF same_rules_badge_update] same_rules_trans)
  qed
qed

lemma apply_filtering_again:
  assumes "apply_filtering st pg = (r, st', pg')" and s: "same_rules st2 st"
  shows "filtered_count (engine_of (apply_filtering st2 pg')) = filtered_count st2"
    and "page_of (apply_filtering st2 pg') = pg'"
proof -
  obtain r1 st1 pg1 where p: "posts_ban st pg = (r1, st1, pg1)"
    by (metis prod_cases3)
  note pe = posts_ban_effect [OF p]
  from pe(7) [of st2] s have p2: "posts_ban st2 pg1 = (r1, st2, pg1)" by simp
  show "filtered_count (engine_of (apply_filtering st2 pg')) = filtered_count st2"
    and "page_of (apply_filtering st2 pg') = pg'"
  proof (atomize (full), cases r1)
    case (Some e)
    with assms p have "pg' = pg1" by (simp add: apply_filtering_def)
    with p2 Some show "filtered_count (engine_of (apply_filtering st2 pg')) =
        filtered_count st2 \<and> page_of (apply_filtering st2 pg') = pg'"
      by (simp add: apply_filtering_def engine_of_def page_of_def)
  next
    case None
    obtain st3 pg3 where c: "comments_ban (user_bans st1) st1 pg1 = (st3, pg3)"
      by (metis surj_pair)
    note ce = comments_ban_effect [OF c]
    from None assms p c have e: "pg' = pg3" by (simp add: apply_filtering_def)
    have q: "posts_ban st2 pg3 = (None, st2, pg3)"
    proof (cases "is_thread pg1")
      case True
      with ce(5) have "is_thread pg3" by (simp add: is_thread_def)
      then show ?thesis by (simp add: posts_ban_def)
    next
      case False
      with ce(6) have "pg3 = pg1" by simp
      with p2 None show ?thesis by simp
    qed
    have s21: "same_rules st2 st1"
      using s pe(3) same_rules_sym same_rules_trans by blast
    then have u: "user_bans st2 = user_bans st1" by (simp add: same_rules_def)
    from ce(7) [OF s21] u have "comments_ban (user_bans st2) st2 pg3 = (st2, pg3)" by simp
    with q e show "filtered_count (engine_of (apply_filtering st2 pg')) =
        filtered_count st2 \<and> page_of (apply_filtering st2 pg') = pg'"
      by (simp add: apply_filtering_def engine_of_def page_of_def badge_update_fields)
  qed
qed

lemma prepare_fields:
  "filtered_count (prepare result st pg) =
     (if href pg \<noteq> current_url st then 0 else filtered_count st)"
  "current_url (prepare result st pg) = href pg"
  by (simp_all add: prepare_def check_navigation_def process_flags_def process_lists_def)

lemma flag_from_again: "flag_from c l (flag_from c l old) = flag_from c l old"
  by (simp add: flag_from_def split: option.splits)

lemma prepare_again:
  "same_rules st1 (prepare result st pg) \<Longrightarrow>
   same_rules (prepare result st1 pg1) (prepare result st pg)"
  by (simp add: same_rules_def prepare_def check_navigation_def process_flags_def
        process_lists_def flag_from_again)

lemma options_process_counter:
  "filtered_count (engine_of (options_process result st pg)) =
     (if href pg \<noteq> current_url st then 0 else filtered_count st)
     + newly_hidden (elements pg) (elements (page_of (options_process result st pg)))"
proof -
  obtain r st1 pg1 where a: "apply_filtering (prepare result st pg) pg = (r, st1, pg1)"
    by (metis prod_cases3)
  from apply_filtering_effect(1) [OF a] a show ?thesis
    by (simp add: prepare_fields options_process_def prepare_def [symmetric]
          engine_of_def page_of_def)
qed

lemma options_process_rescan:
  "filtered_count (engine_of (options_process result
       (engine_of (options_process result st pg)) (page_of (options_process result st pg))))
     = filtered_count (engine_of (options_process result st pg))"
proof -
  obtain r st1 pg1 where a: "apply_filtering (prepare result st pg) pg = (r, st1, pg1)"
    by (metis prod_cases3)
  then have o: "engine_of (options_process result st pg) = st1"
    "page_of (options_process result st pg) = pg1"
    by (simp_all add: options_process_def prepare_def [symmetric] engine_of_def page_of_def)
  note ae = apply_filtering_effect [OF a]
  have s: "same_rules (prepare result st1 pg1) (prepare result st pg)"
    using prepare_again ae(3) by blast
  have "current_url st1 = href pg1" using ae(2,4) by (simp add: prepare_fields)
  then have c: "filtered_count (prepare result st1 pg1) = filtered_count st1"
    by (simp add: prepare_fields)
  from apply_filtering_again(1) [OF a s] c o show ?thesis
    by (simp add: options_process_def prepare_def [symmetric])
qed

lemma log_fields:
  "filtered_count (log st l) = filtered_count st"
  "user_bans (log st l) = user_bans st"
  "keyword_bans (log st l) = keyword_bans st"
  "subreddit_bans (log st l) = subreddit_bans st"
  by (simp_all add: log_def)

lemma cleanup_get_log:
  "cleanup_get_users (log st l) pg = cleanup_get_users st pg"
  "cleanup_get_keywords (log st l) pg = cleanup_get_keywords st pg"
  "cleanup_get_subreddits (log st l) pg = cleanup_get_subreddits st pg"
  by (simp_all add: cleanup_get_users_def cleanup_get_keywords_def cleanup_get_subreddits_def
        log_fields cong: option.case_cong if_cong)

lemma handler_counter:
  "filtered_count (fst (snd (cleanup_request_handle action st pg))) =
     filtered_count st
     + newly_hidden (elements pg) (elements (snd (snd (cleanup_request_handle action st pg))))"
proof -
  have u: "filtered_count (fst (snd (handle_users action ([], st, pg)))) =
     filtered_count st
     + newly_hidden (elements pg) (elements (snd (snd (handle_users action ([], st, pg)))))"
  proof (cases "action = ''cleanupUsers'' \<and> is_thread pg")
    case False
    then show ?thesis by (auto simp: handle_users_def newly_hidden_same)
  next
    case True
    define st2 where "st2 = log (log st (LogCleanupStart ''Thread cleanup initiated''))
      (LogCleanupFound (length (cleanup_get_users st pg)) ''users to filter'')"
    obtain st3 pg3 where c:
      "comments_ban (foldl set_add [] (cleanup_get_users st pg)) st2 pg = (st3, pg3)"
      by (metis surj_pair)
    from comments_ban_effect(1) [OF c] have
      "filtered_count st3 = filtered_count st + newly_hidden (elements pg) (elements pg3)"
      by (simp add: st2_def log_fields)
    with True c show ?thesis
      by (simp add: handle_users_def Let_def cleanup_get_log st2_def)
  qed
  obtain sent st1 pg1 where h: "handle_users action ([], st, pg) = (sent, st1, pg1)"
    by (metis prod_cases3)
  have k: "filtered_count (fst (snd (handle_subreddits action
             (handle_keywords action (sent, st1, pg1))))) = filtered_count st1"
    "snd (snd (handle_subreddits action (handle_keywords action (sent, st1, pg1)))) = pg1"
    by (simp_all add: handle_keywords_def handle_subreddits_def Let_def log_fields)
  from u h k show ?thesis
    by (simp add: cleanup_request_handle_def)
qed

text \<open>
  C4. A reload sets the counter to 0 exactly when the address of the page differs from the
  tracked one, and then adds one for each element the scan hides: an element counts only
  when it was visible before the scan and is hidden after it, so an element that is already
  hidden adds nothing; scanning again the page the scan left, with the same stored record,
  leaves the counter as it is; a cleanup request never resets the counter either, it adds
  the number of elements it hides.
\<close>

theorem hidden_counter:
  "filtered_count (engine_of (options_process result st pg)) =
     (if href pg \<noteq> current_url st then 0 else filtered_count st)
     + newly_hidden (elements pg) (elements (page_of (options_process result st pg))) \<and>
   filtered_count (engine_of (options_process result
       (engine_of (options_process result st pg)) (page_of (options_process result st pg))))
     = filtered_count (engine_of (options_process result st pg)) \<and>
   filtered_count (fst (snd (cleanup_request_handle action st pg))) =
     filtered_count st
     + newly_hidden (elements pg) (elements (snd (snd (cleanup_request_handle action st pg))))"
  using options_process_counter options_process_rescan handler_counter by simp

section \<open>Reloading the preferences\<close>

lemma engine_of_options_process_rules:
  "same_rules (engine_of (options_process result st pg)) (prepare result st pg)"
proof -
  obtain r st' pg' where a: "apply_filtering (prepare result st pg) pg = (r, st', pg')"
    by (metis prod_cases3)
  from apply_filtering_effect(3) [OF a] a show ?thesis
    by (simp add: options_process_def prepare_def engine_of_def)
qed

lemma prepare_flags:
  "logging_enabled (prepare result st pg) =
     flag_from (loggingEnabled result) None (logging_enabled st)"
  "filter_users (prepare result st pg) =
     flag_from (filterUsers result) (blockUsers result) (filter_users st)"
  "filter_keywords (prepare result st pg) =
     flag_from (filterKeywords result) (blockKeywords result) (filter_keywords st)"
  "filter_subreddits (prepare result st pg) =
     flag_from (filterSubreddits result) (blockSubreddits result) (filter_subreddits st)"
  "filter_domains (prepare result st pg) =
     flag_from (filterDomains result) (blockDomains result) (filter_domains st)"
  by (simp_all add: prepare_def check_navigation_def process_flags_def process_lists_def)

lemma flag_from_False: "flag_from c l False = spec_flag c l"
  by (simp add: flag_from_def spec_flag_def)

text \<open>
  C5, as amended. After a reload each preference flag is the value of its current key when
  the record has it, else the value of its legacy key when the record has that, else the
  value the flag had in memory before the reload; on a freshly started engine, whose flags
  are all false, that is the specification's value with the default false.
\<close>

theorem reload_flags:
  "logging_enabled (engine_of (options_process result st pg)) =
     flag_from (loggingEnabled result) None (logging_enabled st) \<and>
   filter_users (engine_of (options_process result st pg)) =
     flag_from (filterUsers result) (blockUsers result) (filter_users st) \<and>
   filter_keywords (engine_of (options_process result st pg)) =
     flag_from (filterKeywords result) (blockKeywords result) (filter_keywords st) \<and>
   filter_subreddits (engine_of (options_process result st pg)) =
     flag_from (filterSubreddits result) (blockSubreddits result) (filter_subreddits st) \<and>
   filter_domains (engine_of (options_process result st pg)) =
     flag_from (filterDomains result) (blockDomains result) (filter_domains st) \<and>
   logging_enabled (engine_of (options_process result (initial_engine url) pg)) =
     spec_flag (loggingEnabled result) None \<and>
   filter_users (engine_of (options_process result (initial_engine url) pg)) =
     spec_flag (filterUsers result) (blockUsers result) \<and>
   filter_keywords (engine_of (options_process result (initial_engine url) pg)) =
     spec_flag (filterKeywords result) (blockKeywords result) \<and>
   filter_subreddits (engine_of (options_process result (initial_engine url) pg)) =
     spec_flag (filterSubreddits result) (blockSubreddits result) \<and>
   filter_domains (engine_of (options_process result (initial_engine url) pg)) =
     spec_flag (filterDomains result) (blockDomains result)"
  using engine_of_options_process_rules [of result st pg]
    engine_of_options_process_rules [of result "initial_engine url" pg]
  by (simp add: same_rules_def prepare_flags flag_from_False [symmetric] initial_engine_def)

text \<open>
  The claim as stated fails: a first reload switches the author filter on; a second reload
  from a record that has neither \<open>filterUsers\<close> nor \<open>blockUsers\<close> leaves it on, where the
  specification's value is false.
\<close>

theorem reload_flags_counterexample:
  "filterUsers no_stored = None \<and> blockUsers no_stored = None \<and>
   filter_users (engine_of (options_process no_stored engine_users_on empty_listing)) = True \<and>
   spec_flag (filterUsers no_stored) (blockUsers no_stored) = False"
  by code_simp

section \<open>Reloading the rule sets\<close>

text \<open>
  C3. The reload guards only the keyword set against empty entries. From the record the
  popup stores for empty text areas, the author, community and domain sets each receive the
  empty string; a white-space-only author is stored as it is.
\<close>

theorem reload_keeps_empty_entries:
  "lines_of '''' = [''''] \<and>
   user_bans (process_lists empty_form_stored (initial_engine front_url)) = [''''] \<and>
   subreddit_bans (process_lists empty_form_stored (initial_engine front_url)) = [''''] \<and>
   domain_bans (process_lists empty_form_stored (initial_engine front_url)) = [''''] \<and>
   keyword_bans (process_lists empty_form_stored (initial_engine front_url)) = [] \<and>
   user_bans (process_lists (no_stored\<lparr>hiddenUsers := Some [''  '']\<rparr>)
                (initial_engine front_url)) = [''  '']"
  by code_simp

text \<open>
  C9. The domain branch has no guard for a missing or empty domain: with the domain filter
  on, a visible post without a domain attribute that no earlier category matches ends the
  scan with a \<open>TypeError\<close>, and a post whose domain attribute is the empty string is hidden
  by the empty entry that the reload stores in the domain set.
\<close>

theorem domain_branch_on_missing_domain:
  "fault_of (options_process empty_form_stored (initial_engine front_url)
               (listing_with (news_post None))) = Some TypeError \<and>
   post_decide (engine_of (options_process empty_form_stored (initial_engine front_url)
                  empty_listing)) (news_post (Some '''')) = Inr (Hide Domain '''') \<and>
   map display (elements (page_of (options_process empty_form_stored
      (initial_engine front_url) (listing_with (news_post (Some '''')))))) = [''none'']"
  by code_simp

section \<open>Answers to cleanup requests\<close>

text \<open>
  C2. \<open>_cleanup_get_users\<close> pushes every author that the author set does not have, once
  per element: over comments by alice, bob and alice, with an empty author set, it returns
  alice twice.
\<close>

theorem collect_authors_repeats:
  "user_bans (initial_engine thread_url) = [] \<and>
   map attr_author (elements thread_page) = [Some ''alice'', Some ''bob'', Some ''alice''] \<and>
   cleanup_get_users (initial_engine thread_url) thread_page = [''alice'', ''bob'', ''alice'']"
  by code_simp

lemma handle_users_sent:
  "fst (handle_users ''cleanupUsers'' ([], st, pg)) =
     (if is_thread pg
      then [[(''status'', JNum 200), (''message'', JList (cleanup_get_users st pg))]]
      else [[(''status'', JNum 400), (''message'', JStr ''Can only cleanup threads'')]])"
  by (simp add: handle_users_def Let_def cleanup_get_log split: prod.splits)

lemma handle_other_sent:
  "fst (handle_keywords ''cleanupUsers'' h) = fst h"
  "fst (handle_subreddits ''cleanupUsers'' h) = fst h"
  "handle_users ''cleanupKeywords'' h = h"
  "fst (handle_subreddits ''cleanupKeywords'' h) = fst h"
  "handle_users ''cleanupSubreddits'' h = h"
  "handle_keywords ''cleanupSubreddits'' h = h"
  by (simp_all add: handle_users_def handle_keywords_def handle_subreddits_def
        split: prod.splits)

lemma handle_keywords_sent:
  "fst (handle_keywords ''cleanupKeywords'' ([], st, pg)) =
     [[(''status'', JNum 200), (''message'', JList (cleanup_get_keywords st pg))]]"
  by (simp add: handle_keywords_def Let_def cleanup_get_log)

lemma handle_subreddits_sent:
  "fst (handle_subreddits ''cleanupSubreddits'' ([], st, pg)) =
     [[(''status'', JNum 200), (''message'', JList (cleanup_get_subreddits st pg))]]"
  by (simp add: handle_subreddits_def Let_def cleanup_get_log)

text \<open>
  C6, as amended. Every cleanup request is answered once and without an exception: a
  \<open>cleanupUsers\<close> request outside a thread with status 400 (and a text in the field
  \<open>message\<close>), inside a thread with status 200 and the collected authors; \<open>cleanupKeywords\<close>
  and \<open>cleanupSubreddits\<close> with status 200 and the matched rules. The list is always in the
  field named \<open>message\<close>.
\<close>

theorem cleanup_responses:
  "(\<not> is_thread pg \<longrightarrow>
      fst (cleanup_request_handle ''cleanupUsers'' st pg) =
        [[(''status'', JNum 400), (''message'', JStr ''Can only cleanup threads'')]]) \<and>
   (is_thread pg \<longrightarrow>
      fst (cleanup_request_handle ''cleanupUsers'' st pg) =
        [[(''status'', JNum 200), (''message'', JList (cleanup_get_users st pg))]]) \<and>
   fst (cleanup_request_handle ''cleanupKeywords'' st pg) =
     [[(''status'', JNum 200), (''message'', JList (cleanup_get_keywords st pg))]] \<and>
   fst (cleanup_request_handle ''cleanupSubreddits'' st pg) =
     [[(''status'', JNum 200), (''message'', JList (cleanup_get_subreddits st pg))]]"
  by (simp add: cleanup_request_handle_def handle_other_sent handle_users_sent
        handle_keywords_sent handle_subreddits_sent)

theorem cleanup_responses_witness:
  "is_thread thread_page \<and> \<not> is_thread empty_listing \<and>
   fst (cleanup_request_handle ''cleanupUsers'' (initial_engine thread_url) thread_page) =
     [[(''status'', JNum 200), (''message'', JList [''alice'', ''bob'', ''alice''])]] \<and>
   fst (cleanup_request_handle ''cleanupUsers'' (initial_engine front_url) empty_listing) =
     [[(''status'', JNum 400), (''message'', JStr ''Can only cleanup threads'')]]"
proof -
  have t: "is_thread thread_page" by code_simp
  have l: "\<not> is_thread empty_listing" by code_simp
  have u: "cleanup_get_users (initial_engine thread_url) thread_page
             = [''alice'', ''bob'', ''alice'']" by code_simp
  from cleanup_responses [of thread_page "initial_engine thread_url"]
    cleanup_responses [of empty_listing "initial_engine front_url"] t l u
  show ?thesis by simp
qed

text \<open>
  The claim as stated fails: the answer to \<open>cleanupUsers\<close> in a thread has the fields
  \<open>status\<close> and \<open>message\<close>, and no field \<open>users\<close>.
\<close>

theorem cleanup_users_field_counterexample:
  "is_thread thread_page \<and>
   fst (cleanup_request_handle ''cleanupUsers'' (initial_engine thread_url) thread_page) =
     [[(''status'', JNum 200), (''message'', JList [''alice'', ''bob'', ''alice''])]] \<and>
   field [(''status'', JNum 200), (''message'', JList [''alice'', ''bob'', ''alice''])]
     ''users'' = None"
  by code_simp

section \<open>Posts that lack a field\<close>










section \<open>The normalizer\<close>

lemma of_char_toLowerCase_char:
  "(of_char (toLowerCase_char c) :: nat) =
     (let n = of_char c
      in if (65 \<le> n \<and> n \<le> 90) \<or> (192 \<le> n \<and> n \<le> 214) \<or> (216 \<le> n \<and> n \<le> 222)
         then n + 32 else n)"
  by (auto simp: toLowerCase_char_def Let_def)

lemma is_sep_of_char: "is_sep c \<longleftrightarrow> (of_char c :: nat) \<in> {47, 63, 35}"
proof -
  have "c = CHR ''/'' \<longleftrightarrow> (of_char c :: nat) = of_char (CHR ''/'')"
    "c = CHR ''?'' \<longleftrightarrow> (of_char c :: nat) = of_char (CHR ''?'')"
    "c = CHR ''#'' \<longleftrightarrow> (of_char c :: nat) = of_char (CHR ''#'')"
    by (simp_all only: of_char_eq_iff)
  then show ?thesis by (simp add: is_sep_def)
qed

lemma is_line_terminator_of_char: "is_line_terminator c \<longleftrightarrow> (of_char c :: nat) \<in> {10, 13}"
proof -
  have "c = CHR 0x0A \<longleftrightarrow> (of_char c :: nat) = of_char (CHR 0x0A)"
    "c = CHR 0x0D \<longleftrightarrow> (of_char c :: nat) = of_char (CHR 0x0D)"
    by (simp_all only: of_char_eq_iff)
  then show ?thesis by (simp add: is_line_terminator_def)
qed

lemma is_sep_lower: "is_sep (toLowerCase_char c) = is_sep c"
  by (auto simp: is_sep_of_char of_char_toLowerCase_char Let_def)

lemma is_line_terminator_lower: "is_line_terminator (toLowerCase_char c) = is_line_terminator c"
  by (auto simp: is_line_terminator_of_char of_char_toLowerCase_char Let_def)

text \<open>Lower-casing moves no separator and no line terminator, so the capture commutes with it.\<close>

lemma match_host_lower: "match_host (toLowerCase s) = map_option toLowerCase (match_host s)"
  by (simp add: match_host_def toLowerCase_def takeWhile_map dropWhile_map comp_def
        is_sep_lower is_line_terminator_lower list_all_iff Let_def)

lemma match_host_Some:
  "match_host r = Some h \<Longrightarrow> h \<noteq> [] \<and> (\<forall>c \<in> set h. \<not> is_sep c)"
  by (auto simp: match_host_def Let_def split: if_splits dest: set_takeWhileD)

lemma match_www_host_Some:
  "match_www_host r = Some h \<Longrightarrow> h \<noteq> [] \<and> (\<forall>c \<in> set h. \<not> is_sep c)"
  by (auto simp: match_www_host_def orelse_def split: option.splits dest: match_host_Some)

lemma domain_pattern_Some:
  "domain_pattern s = Some h \<Longrightarrow> h \<noteq> [] \<and> (\<forall>c \<in> set h. \<not> is_sep c)"
  by (auto simp: domain_pattern_def orelse_def split: option.splits dest: match_www_host_Some)

lemma domain_pattern_None: "domain_pattern s = None \<Longrightarrow> match_host s = None"
  by (auto simp: domain_pattern_def match_www_host_def orelse_def split: option.splits)

lemma match_host_plain:
  "h \<noteq> [] \<Longrightarrow> \<forall>c \<in> set h. \<not> is_sep c \<Longrightarrow> match_host h = Some h"
  by (simp add: match_host_def Let_def takeWhile_eq_all_conv [THEN iffD2]
        dropWhile_eq_Nil_conv [THEN iffD2])

lemma domain_pattern_no_prefix:
  "strip_scheme t = None \<Longrightarrow> strip_www t = None \<Longrightarrow> domain_pattern t = match_host t"
  by (simp add: domain_pattern_def match_www_host_def)

lemma clean_domain_again:
  assumes "strip_scheme (clean_domain s) = None" and "strip_www (clean_domain s) = None"
  shows "clean_domain (clean_domain s) = clean_domain s"
proof -
  define t where "t = clean_domain s"
  from assms have p: "domain_pattern t = match_host t"
    unfolding t_def by (rule domain_pattern_no_prefix)
  have low: "toLowerCase t = t" by (simp add: t_def clean_domain_def toLowerCase_idem)
  show ?thesis
  proof (cases "domain_pattern s")
    case None
    then have t: "t = toLowerCase s" by (simp add: t_def clean_domain_def)
    from None have "match_host s = None" by (rule domain_pattern_None)
    then have "match_host t = None" by (simp add: t match_host_lower)
    with p low show ?thesis by (simp add: t_def [symmetric] clean_domain_def [of t])
  next
    case (Some h)
    then have t: "t = toLowerCase h" by (simp add: t_def clean_domain_def)
    from domain_pattern_Some [OF Some] have "t \<noteq> []" "\<forall>c \<in> set t. \<not> is_sep c"
      by (auto simp: t toLowerCase_def is_sep_lower)
    then have "match_host t = Some t" by (rule match_host_plain)
    with p low show ?thesis by (simp add: t_def [symmetric] clean_domain_def [of t])
  qed
qed

lemma clean_user_again:
  "\<not> starts_with (clean_user s) ''u/'' \<Longrightarrow> clean_user (clean_user s) = clean_user s"
  by (auto simp: clean_user_def [of "clean_user s"] starts_with_def numeral_2_eq_2)

lemma clean_subreddit_again:
  "\<not> starts_with (clean_subreddit s) ''r/'' \<Longrightarrow>
     clean_subreddit (clean_subreddit s) = clean_subreddit s"
proof -
  assume "\<not> starts_with (clean_subreddit s) ''r/''"
  then have "clean_subreddit (clean_subreddit s) = toLowerCase (clean_subreddit s)"
    by (auto simp: clean_subreddit_def [of "clean_subreddit s"] starts_with_def numeral_2_eq_2)
  then show ?thesis by (simp add: clean_subreddit_def [of s] toLowerCase_idem)
qed

lemma trim_idem: "trim (trim s) = trim s"
proof -
  define a where "a = dropWhile is_white_space s"
  define b where "b = dropWhile is_white_space (rev a)"
  have tb: "trim s = rev b" by (simp add: trim_def a_def b_def)
  have 1: "dropWhile is_white_space (rev b) = rev b"
  proof (cases a)
    case Nil
    then show ?thesis by (simp add: b_def)
  next
    case (Cons x xs)
    then have nx: "\<not> is_white_space x"
      using hd_dropWhile [of is_white_space s] by (simp add: a_def)
    have "rev a = rev xs @ [x]" by (simp add: Cons)
    with nx have "b = dropWhile is_white_space (rev xs) @ [x]"
      by (simp add: b_def dropWhile_append3)
    with nx show ?thesis by simp
  qed
  have 2: "dropWhile is_white_space b = b" by (simp add: b_def)
  show ?thesis
    by (simp add: tb trim_def [of "rev b"] 1 2)
qed

section \<open>Saving from the popup\<close>

lemma set_items_other: "k \<notin> fst ` set obj \<Longrightarrow> set_items obj m k = m k"
  by (induction obj arbitrary: m) auto

lemma set_items_member:
  "distinct (map fst obj) \<Longrightarrow> (k, v) \<in> set obj \<Longrightarrow> set_items obj m k = Some v"
proof (induction obj arbitrary: m)
  case Nil
  then show ?case by simp
next
  case (Cons kv kvs)
  obtain k' v' where kv: "kv = (k', v')" by (cases kv)
  show ?case
  proof (cases "(k, v) \<in> set kvs")
    case True
    with Cons kv show ?thesis by simp
  next
    case False
    with Cons.prems kv have e: "k' = k" "v' = v" by auto
    with Cons.prems kv have "k \<notin> fst ` set kvs" by auto
    then show ?thesis by (simp add: kv e set_items_other)
  qed
qed

lemma remove_keys_apply: "remove_keys ks m k = (if k \<in> set ks then None else m k)"
  by (induction ks arbitrary: m) auto

lemma distinct_data_to_save: "distinct (map fst (data_to_save f))"
  by (simp add: data_to_save_def)

lemma enableSync_in_data: "(''enableSync'', JBool (cb_enableSync f)) \<in> set (data_to_save f)"
  by (simp add: data_to_save_def)

lemma enableSync_not_removed: "''enableSync'' \<notin> set keys_to_remove"
  by (simp add: keys_to_remove_def)

lemma known_keys_removed: "set storage_keys \<union> set legacy_keys \<subseteq> set keys_to_remove"
  by (simp add: storage_keys_def legacy_keys_def keys_to_remove_def)

lemma data_save_sync:
  assumes "cb_enableSync f"
  shows "sync_area (data_save f s) = set_items (data_to_save f) (sync_area s)"
    and "local_area (data_save f s) =
           remove_keys keys_to_remove
             (set_items [(''enableSync'', JBool (cb_enableSync f))] (local_area s))"
  using assms
  by (simp_all add: data_save_def data_save_ops_def data_migrate_def run_ops_def
        storage_area_get_def area_update_def)

lemma data_save_local:
  assumes "\<not> cb_enableSync f"
  shows "local_area (data_save f s) =
           set_items (data_to_save f)
             (set_items [(''enableSync'', JBool (cb_enableSync f))] (local_area s))"
    and "sync_area (data_save f s) = remove_keys keys_to_remove (sync_area s)"
  using assms
  by (simp_all add: data_save_def data_save_ops_def data_migrate_def run_ops_def
        storage_area_get_def area_update_def)

lemma data_save_enableSync:
  "local_area (data_save f s) ''enableSync'' = Some (JBool (cb_enableSync f))"
proof (cases "cb_enableSync f")
  case True
  then show ?thesis
    by (simp add: data_save_sync remove_keys_apply enableSync_not_removed)
next
  case False
  then show ?thesis
    by (simp add: data_save_local
          set_items_member [OF distinct_data_to_save enableSync_in_data])
qed

lemma data_save_active:
  "(k, v) \<in> set (data_to_save f) \<Longrightarrow>
   area_of (data_save f s) (if cb_enableSync f then Sync else Local) k = Some v"
  by (cases "cb_enableSync f")
     (simp_all add: area_of_def data_save_sync data_save_local
        set_items_member [OF distinct_data_to_save])

lemma data_save_other:
  "k \<in> set keys_to_remove \<Longrightarrow>
   area_of (data_save f s) (if cb_enableSync f then Local else Sync) k = None"
  by (cases "cb_enableSync f")
     (simp_all add: area_of_def data_save_sync data_save_local remove_keys_apply)

lemma data_save_frame:
  "k \<notin> set keys_to_remove \<Longrightarrow> k \<noteq> ''enableSync'' \<Longrightarrow>
   area_of (data_save f s) (if cb_enableSync f then Local else Sync) k =
     area_of s (if cb_enableSync f then Local else Sync) k"
  by (cases "cb_enableSync f")
     (simp_all add: area_of_def data_save_sync data_save_local remove_keys_apply)

lemma data_save_sync_flag:
  "\<not> cb_enableSync f \<Longrightarrow> sync_area (data_save f s) ''enableSync'' = sync_area s ''enableSync''"
  by (simp add: data_save_local remove_keys_apply enableSync_not_removed)

text \<open>
  C7. A save makes three storage calls in this order: \<open>enableSync\<close> to the local area, the
  full record to the area that \<open>enableSync\<close> selects, and the removal of the key list of
  \<open>_data_migrate\<close>, which holds every current key of \<open>__storage_keys\<close> and every legacy key
  but not \<open>enableSync\<close>, from the other area. Afterwards the local area holds the new
  \<open>enableSync\<close>, the active area holds every field of the record, and the other area holds
  none of the current and legacy keys and is unchanged at every other key (but for
  \<open>enableSync\<close> in the local area); with \<open>enableSync\<close> off the record is in the local area and
  the keys are gone from the synchronised area, whose own \<open>enableSync\<close> entry stays.
\<close>

theorem save_then_migrate:
  "data_save_ops f =
     [SetItems Local [(''enableSync'', JBool (cb_enableSync f))],
      SetItems (if cb_enableSync f then Sync else Local) (data_to_save f),
      RemoveKeys (if cb_enableSync f then Local else Sync) keys_to_remove] \<and>
   set storage_keys \<union> set legacy_keys \<subseteq> set keys_to_remove \<and>
   ''enableSync'' \<notin> set keys_to_remove \<and>
   local_area (data_save f s) ''enableSync'' = Some (JBool (cb_enableSync f)) \<and>
   (\<forall>(k, v) \<in> set (data_to_save f).
      area_of (data_save f s) (if cb_enableSync f then Sync else Local) k = Some v) \<and>
   (\<forall>k \<in> set storage_keys \<union> set legacy_keys.
      area_of (data_save f s) (if cb_enableSync f then Local else Sync) k = None) \<and>
   (\<forall>k. k \<notin> set keys_to_remove \<and> k \<noteq> ''enableSync'' \<longrightarrow>
      area_of (data_save f s) (if cb_enableSync f then Local else Sync) k =
        area_of s (if cb_enableSync f then Local else Sync) k) \<and>
   (\<not> cb_enableSync f \<longrightarrow>
      (\<forall>(k, v) \<in> set (data_to_save f). local_area (data_save f s) k = Some v) \<and>
      (\<forall>k \<in> set storage_keys \<union> set legacy_keys. sync_area (data_save f s) k = None) \<and>
      sync_area (data_save f s) ''enableSync'' = sync_area s ''enableSync'')"
proof -
  have ops: "data_save_ops f =
     [SetItems Local [(''enableSync'', JBool (cb_enableSync f))],
      SetItems (if cb_enableSync f then Sync else Local) (data_to_save f),
      RemoveKeys (if cb_enableSync f then Local else Sync) keys_to_remove]"
    by (simp add: data_save_ops_def data_migrate_def storage_area_get_def)
  have act: "\<forall>(k, v) \<in> set (data_to_save f).
      area_of (data_save f s) (if cb_enableSync f then Sync else Local) k = Some v"
    using data_save_active by blast
  have oth: "\<forall>k \<in> set storage_keys \<union> set legacy_keys.
      area_of (data_save f s) (if cb_enableSync f then Local else Sync) k = None"
    using data_save_other known_keys_removed by blast
  have frame: "\<forall>k. k \<notin> set keys_to_remove \<and> k \<noteq> ''enableSync'' \<longrightarrow>
      area_of (data_save f s) (if cb_enableSync f then Local else Sync) k =
        area_of s (if cb_enableSync f then Local else Sync) k"
    using data_save_frame by blast
  have sw: "\<not> cb_enableSync f \<longrightarrow>
      (\<forall>(k, v) \<in> set (data_to_save f). local_area (data_save f s) k = Some v) \<and>
      (\<forall>k \<in> set storage_keys \<union> set legacy_keys. sync_area (data_save f s) k = None) \<and>
      sync_area (data_save f s) ''enableSync'' = sync_area s ''enableSync''"
    using act oth data_save_sync_flag by (auto simp: area_of_def)
  from ops known_keys_removed enableSync_not_removed data_save_enableSync act oth frame sw
  show ?thesis by blast
qed

theorem save_then_migrate_witness:
  "\<not> cb_enableSync local_form \<and>
   (''hiddenUsers'', JList [''bob'', ''u/eve'']) \<in> set (data_to_save local_form) \<and>
   ''blockUsers'' \<in> set storage_keys \<union> set legacy_keys \<and>
   ''hiddenUsers'' \<in> set storage_keys \<union> set legacy_keys \<and>
   sync_area synced_storage ''hiddenUsers'' = Some (JList [''bob'']) \<and>
   sync_area synced_storage ''blockUsers'' = Some (JBool True) \<and>
   local_area (data_save local_form synced_storage) ''enableSync'' = Some (JBool False) \<and>
   local_area (data_save local_form synced_storage) ''hiddenUsers''
     = Some (JList [''bob'', ''u/eve'']) \<and>
   sync_area (data_save local_form synced_storage) ''hiddenUsers'' = None \<and>
   sync_area (data_save local_form synced_storage) ''blockUsers'' = None \<and>
   sync_area (data_save local_form synced_storage) ''enableSync'' = Some (JBool True)"
proof -
  have a: "\<not> cb_enableSync local_form" by (simp add: local_form_def)
  have b: "(''hiddenUsers'', JList [''bob'', ''u/eve'']) \<in> set (data_to_save local_form)"
    by code_simp
  have c: "''blockUsers'' \<in> set storage_keys \<union> set legacy_keys"
    "''hiddenUsers'' \<in> set storage_keys \<union> set legacy_keys"
    by (simp_all add: storage_keys_def legacy_keys_def)
  have d: "sync_area synced_storage ''hiddenUsers'' = Some (JList [''bob''])"
    "sync_area synced_storage ''blockUsers'' = Some (JBool True)"
    "sync_area synced_storage ''enableSync'' = Some (JBool True)"
    by (simp_all add: synced_storage_def)
  note t = save_then_migrate [of local_form synced_storage]
  from t a b have e: "local_area (data_save local_form synced_storage) ''hiddenUsers''
     = Some (JList [''bob'', ''u/eve''])" by blast
  from t a c have f: "sync_area (data_save local_form synced_storage) ''hiddenUsers'' = None"
    "sync_area (data_save local_form synced_storage) ''blockUsers'' = None" by blast+
  from t a have g: "local_area (data_save local_form synced_storage) ''enableSync''
     = Some (JBool False)" by simp
  from t a d have h: "sync_area (data_save local_form synced_storage) ''enableSync''
     = Some (JBool True)" by simp
  from a b c d e f g h show ?thesis by simp
qed

section \<open>The rule sets after a reload\<close>

lemma set_set_add: "set (set_add xs x) = insert x (set xs)"
  by (auto simp: set_add_def)


lemma set_add_keywords:
  "set (add_keywords bans ks) = set bans \<union> clean_keyword ` {k \<in> set ks. trim k \<noteq> []}"
  unfolding add_keywords_def by (induction ks arbitrary: bans) (auto simp: set_set_add)

lemma set_add_subreddits:
  "set (add_subreddits bans rs) = set bans \<union> clean_subreddit ` set rs"
  unfolding add_subreddits_def by (induction rs arbitrary: bans) (auto simp: set_set_add)

lemma set_add_domains: "set (add_domains bans ds) = set bans \<union> clean_domain ` set ds"
  unfolding add_domains_def by (induction ds arbitrary: bans) (auto simp: set_set_add)


lemma process_lists_keywords:
  "set (keyword_bans (process_lists result st)) =
     clean_keyword ` {k \<in> set (raw (hiddenKeywords result)). trim k \<noteq> []}"
  by (cases "hiddenKeywords result") (simp_all add: process_lists_def raw_def set_add_keywords)

lemma process_lists_subreddits:
  "set (subreddit_bans (process_lists result st)) =
     clean_subreddit ` set (raw (hiddenSubreddits result))"
  by (cases "hiddenSubreddits result")
     (simp_all add: process_lists_def raw_def set_add_subreddits)

lemma process_lists_domains:
  "set (domain_bans (process_lists result st)) = clean_domain ` set (raw (hiddenDomains result))"
  by (cases "hiddenDomains result") (simp_all add: process_lists_def raw_def set_add_domains)

text \<open>Keyword, community and domain rules are stored lower-cased.\<close>

lemma process_lists_lower:
  "k \<in> set (keyword_bans (process_lists result st)) \<union>
       set (subreddit_bans (process_lists result st)) \<union>
       set (domain_bans (process_lists result st)) \<Longrightarrow> toLowerCase k = k"
  by (auto simp: process_lists_keywords process_lists_subreddits process_lists_domains
        clean_keyword_def clean_subreddit_def clean_domain_def toLowerCase_idem)

lemma is_white_space_lower: "is_white_space (toLowerCase_char c) = is_white_space c"
  by (auto simp: is_white_space_def of_char_toLowerCase_char Let_def)

lemma dropWhile_white_lower:
  "dropWhile is_white_space (map toLowerCase_char s) =
     map toLowerCase_char (dropWhile is_white_space s)"
  by (induction s) (simp_all add: is_white_space_lower)

lemma trim_lower: "trim (toLowerCase s) = toLowerCase (trim s)"
  by (simp add: trim_def toLowerCase_def dropWhile_white_lower rev_map)

text \<open>The keyword set is the one set the reload keeps free of blank entries.\<close>

lemma keyword_bans_not_blank:
  "k \<in> set (keyword_bans (process_lists result st)) \<Longrightarrow> trim k \<noteq> []"
  by (auto simp: process_lists_keywords clean_keyword_def trim_lower
        toLowerCase_def [of "trim _"])



section \<open>The matcher's priority\<close>











section \<open>The counter on an example page\<close>

text \<open>
  On a listing whose first post an earlier scan has hidden and whose second post the keyword
  rule matches, a rescan at the same address takes the counter from 5 to 6: the hidden post
  is not counted again. The same scan after a change of address sets the counter to 1.
\<close>

theorem hidden_counter_witness:
  "map is_visible (elements two_posts) = [False, True, True] \<and>
   map is_visible (elements (page_of (options_process shop_stored
       (counting_engine front_url 5) two_posts))) = [False, False, True] \<and>
   filtered_count (engine_of (options_process shop_stored
       (counting_engine front_url 5) two_posts)) = 6 \<and>
   filtered_count (engine_of (options_process shop_stored
       (counting_engine thread_url 5) two_posts)) = 1"
proof -
  have v: "map is_visible (elements two_posts) = [False, True, True]" by code_simp
  have w: "map is_visible (elements (page_of (options_process shop_stored
       (counting_engine front_url 5) two_posts))) = [False, False, True]" by code_simp
  have a: "newly_hidden (elements two_posts) (elements (page_of (options_process shop_stored
       (counting_engine front_url 5) two_posts))) = 1" by code_simp
  have b: "newly_hidden (elements two_posts) (elements (page_of (options_process shop_stored
       (counting_engine thread_url 5) two_posts))) = 1" by code_simp
  have c: "href two_posts = current_url (counting_engine front_url 5)"
    "href two_posts \<noteq> current_url (counting_engine thread_url 5)"
    "filtered_count (counting_engine front_url 5) = 5" by code_simp+
  from hidden_counter [of shop_stored "counting_engine front_url 5" two_posts] a c
  have d: "filtered_count (engine_of (options_process shop_stored
       (counting_engine front_url 5) two_posts)) = 6" by simp
  from hidden_counter [of shop_stored "counting_engine thread_url 5" two_posts] b c
  have e: "filtered_count (engine_of (options_process shop_stored
       (counting_engine thread_url 5) two_posts)) = 1" by simp
  from v w d e show ?thesis by simp
qed

section \<open>What the cleanup collectors return\<close>

text \<open>
  \<open>_cleanup_get_users\<close> returns, in document order, the truthy authors that the author set
  does not have: one entry per element.
\<close>

lemma cleanup_get_users_eq:
  "cleanup_get_users st pg =
     map the (filter (\<lambda>a. a \<noteq> None \<and> the a \<noteq> [] \<and> the a \<notin> set (user_bans st))
                (map attr_author (elements pg)))"
proof -
  have "foldl (\<lambda>accumulated_bans comment.
              (case attr_author comment of
                 None \<Rightarrow> accumulated_bans
               | Some a \<Rightarrow>
                   if a \<noteq> [] \<and> \<not> set_has (user_bans st) a
                   then accumulated_bans @ [a] else accumulated_bans)) acc es
     = acc @ map the (filter (\<lambda>a. a \<noteq> None \<and> the a \<noteq> [] \<and> the a \<notin> set (user_bans st))
                (map attr_author es))" for acc and es :: "element list"
    by (induction es arbitrary: acc) (auto simp: set_has_def split: option.splits)
  from this [of "[]" "elements pg"] show ?thesis by (simp add: cleanup_get_users_def)
qed

lemma inner_found:
  "set (foldl (\<lambda>found post. case g post of
                               None \<Rightarrow> found
                             | Some y \<Rightarrow> if Q y then set_add found x else found) found ps)
     = set found \<union> (if list_ex (\<lambda>p. case g p of None \<Rightarrow> False | Some y \<Rightarrow> Q y) ps
                     then {x} else {})"
  by (induction ps arbitrary: found) (auto simp: set_set_add split: option.splits)

lemma outer_found:
  "set (foldl (\<lambda>found k.
          foldl (\<lambda>found post. case g post of
                               None \<Rightarrow> found
                             | Some y \<Rightarrow> if Q k y then set_add found (f k) else found)
                found ps) found ks)
     = set found \<union>
       f ` {k \<in> set ks. list_ex (\<lambda>p. case g p of None \<Rightarrow> False | Some y \<Rightarrow> Q k y) ps}"
proof (induction ks arbitrary: found)
  case Nil
  then show ?case by simp
next
  case (Cons k ks)
  show ?case
    by (simp only: foldl_Cons Cons.IH inner_found [where Q = "Q k"]) auto
qed

text \<open>
  The keyword and community collectors return the lower-cased rules of the set that some
  post of the page matches.
\<close>

lemma cleanup_get_keywords_set:
  "set (cleanup_get_keywords st pg) =
     toLowerCase ` {k \<in> set (keyword_bans st). title_has pg k}"
  unfolding cleanup_get_keywords_def title_has_def
  using outer_found [where g = attr_post_title and f = toLowerCase
      and Q = "\<lambda>k title. title \<noteq> [] \<and> str_includes (toLowerCase title) (toLowerCase k)"
      and found = "[]" and ps = "posts_of pg" and ks = "keyword_bans st"]
  by simp

lemma cleanup_get_subreddits_set:
  "set (cleanup_get_subreddits st pg) =
     toLowerCase ` {r \<in> set (subreddit_bans st). community_has pg r}"
  unfolding cleanup_get_subreddits_def community_has_def
  using outer_found [where g = attr_subreddit_prefixed_name and f = toLowerCase
      and Q = "\<lambda>r full. full \<noteq> [] \<and> toLowerCase (drop 2 full) = toLowerCase r"
      and found = "[]" and ps = "posts_of pg" and ks = "subreddit_bans st"]
  by simp

section \<open>The normalizer, from text area to rule set\<close>

lemma length_toLowerCase: "length (toLowerCase s) = length s"
  by (simp add: toLowerCase_def)

lemma dropWhile_same_length: "length (dropWhile P xs) = length xs \<Longrightarrow> dropWhile P xs = xs"
proof (cases xs)
  case Nil
  then show ?thesis by simp
next
  case (Cons a list)
  assume l: "length (dropWhile P xs) = length xs"
  show ?thesis
  proof (cases "P a")
    case True
    with l Cons length_dropWhile_le [of P list] show ?thesis by simp
  next
    case False
    with Cons show ?thesis by simp
  qed
qed

lemma length_trim_le: "length (trim s) \<le> length s"
  unfolding trim_def
  by (metis length_dropWhile_le length_rev le_trans)

text \<open>Trimming shortens every string that it changes.\<close>

lemma trim_same_length: "length (trim s) = length s \<Longrightarrow> trim s = s"
proof -
  assume a: "length (trim s) = length s"
  let ?a = "dropWhile is_white_space s"
  have 1: "length (trim s) \<le> length ?a"
    unfolding trim_def by (metis length_dropWhile_le length_rev)
  have 2: "length ?a \<le> length s" by (rule length_dropWhile_le)
  from a 1 2 have "length ?a = length s" by simp
  then have e: "?a = s" by (rule dropWhile_same_length)
  with a have "length (dropWhile is_white_space (rev s)) = length (rev s)"
    by (simp add: trim_def)
  then have "dropWhile is_white_space (rev s) = rev s" by (rule dropWhile_same_length)
  with e show ?thesis by (simp add: trim_def)
qed

lemma length_clean_user_le: "length (clean_user s) \<le> length s"
  by (simp add: clean_user_def)

lemma length_clean_subreddit_le: "length (clean_subreddit s) \<le> length s"
  by (simp add: clean_subreddit_def length_toLowerCase)

text \<open>The strings the author normalizer leaves as they are.\<close>

lemma normalize_user_fixed:
  "normalize_user t = t \<longleftrightarrow> trim t = t \<and> \<not> starts_with t ''u/''"
proof
  assume f: "normalize_user t = t"
  have "length (clean_user (trim t)) \<le> length (trim t)" by (rule length_clean_user_le)
  with f have "length t \<le> length (trim t)" by (simp add: normalize_user_def)
  with length_trim_le [of t] have "length (trim t) = length t" by simp
  then have tr: "trim t = t" by (rule trim_same_length)
  with f have "clean_user t = t" by (simp add: normalize_user_def)
  then have "\<not> starts_with t ''u/''"
    by (auto simp: clean_user_def starts_with_def numeral_2_eq_2 split: if_splits
          dest: arg_cong [where f = length])
  with tr show "trim t = t \<and> \<not> starts_with t ''u/''" by simp
next
  assume "trim t = t \<and> \<not> starts_with t ''u/''"
  then show "normalize_user t = t"
    by (auto simp: normalize_user_def clean_user_def starts_with_def numeral_2_eq_2)
qed

lemma normalize_subreddit_fixed:
  assumes low: "toLowerCase t = t"
  shows "normalize_subreddit t = t \<longleftrightarrow> trim t = t \<and> \<not> starts_with t ''r/''"
proof
  assume f: "normalize_subreddit t = t"
  have "length (clean_subreddit (trim t)) \<le> length (trim t)"
    by (rule length_clean_subreddit_le)
  with f have "length t \<le> length (trim t)" by (simp add: normalize_subreddit_def)
  with length_trim_le [of t] have "length (trim t) = length t" by simp
  then have tr: "trim t = t" by (rule trim_same_length)
  with f have "clean_subreddit t = t" by (simp add: normalize_subreddit_def)
  then have "\<not> starts_with t ''r/''"
    by (auto simp: clean_subreddit_def starts_with_def numeral_2_eq_2 split: if_splits
          dest: arg_cong [where f = length] simp: length_toLowerCase)
  with tr show "trim t = t \<and> \<not> starts_with t ''r/''" by simp
next
  assume "trim t = t \<and> \<not> starts_with t ''r/''"
  with low show "normalize_subreddit t = t"
    by (auto simp: normalize_subreddit_def clean_subreddit_def starts_with_def numeral_2_eq_2)
qed

lemma normalize_subreddit_lower: "toLowerCase (normalize_subreddit s) = normalize_subreddit s"
  by (simp add: normalize_subreddit_def clean_subreddit_def toLowerCase_idem)

lemma normalize_keyword_again: "normalize_keyword (normalize_keyword s) = normalize_keyword s"
  by (simp add: normalize_keyword_def clean_keyword_def trim_lower trim_idem toLowerCase_idem)

lemma normalize_domain_again:
  "trim (normalize_domain s) = normalize_domain s \<Longrightarrow>
   strip_scheme (normalize_domain s) = None \<Longrightarrow> strip_www (normalize_domain s) = None \<Longrightarrow>
   normalize_domain (normalize_domain s) = normalize_domain s"
  using clean_domain_again [of "trim s"]
  by (simp add: normalize_domain_def [symmetric] normalize_domain_def [of "normalize_domain s"])

text \<open>
  C8, as amended. The normalizer of a category is the trim of the popup followed by the
  cleaning of the reload. For keywords it is idempotent on every input. For authors and
  communities, normalizing the output again returns it unchanged exactly when that output
  has no white space at either end and does not begin with the category's prefix (\<open>u/\<close>,
  \<open>r/\<close>): one prefix is stripped, and what follows it is not trimmed again. For domains,
  normalizing the output again returns it unchanged whenever that output has no white space
  at either end and does not begin with a scheme or \<open>www.\<close>.
\<close>

theorem normalizer_again:
  "normalize_keyword (normalize_keyword s) = normalize_keyword s \<and>
   (normalize_user (normalize_user s) = normalize_user s \<longleftrightarrow>
      trim (normalize_user s) = normalize_user s \<and>
      \<not> starts_with (normalize_user s) ''u/'') \<and>
   (normalize_subreddit (normalize_subreddit s) = normalize_subreddit s \<longleftrightarrow>
      trim (normalize_subreddit s) = normalize_subreddit s \<and>
      \<not> starts_with (normalize_subreddit s) ''r/'') \<and>
   (trim (normalize_domain s) = normalize_domain s \<and>
    strip_scheme (normalize_domain s) = None \<and> strip_www (normalize_domain s) = None \<longrightarrow>
      normalize_domain (normalize_domain s) = normalize_domain s)"
  using normalize_keyword_again normalize_user_fixed
    normalize_subreddit_fixed [OF normalize_subreddit_lower] normalize_domain_again
  by blast

theorem normalizer_again_witness:
  "normalize_user ''  u/bob '' = ''bob'' \<and>
   trim (normalize_user ''  u/bob '') = normalize_user ''  u/bob '' \<and>
   \<not> starts_with (normalize_user ''  u/bob '') ''u/'' \<and>
   normalize_user (normalize_user ''  u/bob '') = ''bob'' \<and>
   normalize_subreddit '' r/Pics'' = ''pics'' \<and>
   trim (normalize_subreddit '' r/Pics'') = normalize_subreddit '' r/Pics'' \<and>
   \<not> starts_with (normalize_subreddit '' r/Pics'') ''r/'' \<and>
   normalize_subreddit (normalize_subreddit '' r/Pics'') = ''pics'' \<and>
   normalize_domain '' https://www.Example.com/a?b#c '' = ''example.com'' \<and>
   trim (normalize_domain '' https://www.Example.com/a?b#c '')
     = normalize_domain '' https://www.Example.com/a?b#c '' \<and>
   strip_scheme (normalize_domain '' https://www.Example.com/a?b#c '') = None \<and>
   strip_www (normalize_domain '' https://www.Example.com/a?b#c '') = None \<and>
   normalize_domain (normalize_domain '' https://www.Example.com/a?b#c '') = ''example.com''"
proof -
  have u: "normalize_user ''  u/bob '' = ''bob''" by code_simp
  have u': "trim (normalize_user ''  u/bob '') = normalize_user ''  u/bob ''"
    "\<not> starts_with (normalize_user ''  u/bob '') ''u/''" by code_simp+
  have r: "normalize_subreddit '' r/Pics'' = ''pics''" by code_simp
  have r': "trim (normalize_subreddit '' r/Pics'') = normalize_subreddit '' r/Pics''"
    "\<not> starts_with (normalize_subreddit '' r/Pics'') ''r/''" by code_simp+
  have d: "normalize_domain '' https://www.Example.com/a?b#c '' = ''example.com''"
    by code_simp
  have d': "trim (normalize_domain '' https://www.Example.com/a?b#c '')
              = normalize_domain '' https://www.Example.com/a?b#c ''"
    "strip_scheme (normalize_domain '' https://www.Example.com/a?b#c '') = None"
    "strip_www (normalize_domain '' https://www.Example.com/a?b#c '') = None" by code_simp+
  from normalizer_again [of "''  u/bob ''"] u u'
  have 1: "normalize_user (normalize_user ''  u/bob '') = ''bob''" by simp
  from normalizer_again [of "'' r/Pics''"] r r'
  have 2: "normalize_subreddit (normalize_subreddit '' r/Pics'') = ''pics''" by simp
  from normalizer_again [of "'' https://www.Example.com/a?b#c ''"] d d'
  have 3: "normalize_domain (normalize_domain '' https://www.Example.com/a?b#c '')
             = ''example.com''" by simp
  from u u' r r' d d' 1 2 3 show ?thesis by simp
qed

text \<open>
  The claim as stated fails: a second prefix survives the first normalization and is
  stripped by the second, and so does white space that follows the prefix.
\<close>

theorem normalizer_counterexample:
  "normalize_user ''u/u/bob'' = ''u/bob'' \<and>
   normalize_user (normalize_user ''u/u/bob'') = ''bob'' \<and>
   normalize_user ''u/ bob'' = '' bob'' \<and>
   normalize_user (normalize_user ''u/ bob'') = ''bob'' \<and>
   normalize_subreddit ''R/r/Pics'' = ''r/r/pics'' \<and>
   normalize_subreddit (normalize_subreddit ''R/r/Pics'') = ''r/pics'' \<and>
   normalize_subreddit ''r/ Pics'' = '' pics'' \<and>
   normalize_subreddit (normalize_subreddit ''r/ Pics'') = ''pics'' \<and>
   normalize_domain ''www.www.example.com'' = ''www.example.com'' \<and>
   normalize_domain (normalize_domain ''www.www.example.com'') = ''example.com'' \<and>
   normalize_domain ''http:// Example.com'' = '' example.com'' \<and>
   normalize_domain (normalize_domain ''http:// Example.com'') = ''example.com''"
  by code_simp

end
